theory Spec2Isabelle
  imports Main "HOL-Library.Multiset"
begin

section \<open>The playlist engine of stream-segment (src/engine/stream-engine.mjs)\<close>

text \<open>
  The engine reads \<^verbatim>\<open>playlist.json\<close>, orders its clips by priority tier, plays them
  one after the other, looks for breaking clips before every step, and removes the
  breaking clips from the file when a pass is over. The functions below embed the
  functions of the source under their own names; what the JavaScript does implicitly
  (an undefined member, a NaN, a thrown TypeError, a write to a file) is written out.
\<close>

subsection \<open>Clips and playlists\<close>

text \<open>
  A clip is one element of the \<^verbatim>\<open>clips\<close> array. The members the engine reads:
  \<^item> \<open>clip_id\<close>: \<^verbatim>\<open>c.id\<close>;
  \<^item> \<open>path\<close>: \<^verbatim>\<open>c.path\<close>, \<open>None\<close> when the member is absent (then
    \<^verbatim>\<open>join(queueDir, clip.path)\<close> throws a TypeError);
  \<^item> \<open>priority\<close>: \<^verbatim>\<open>c.priority\<close>, a string. The source only ever compares it
    with \<^verbatim>\<open>===\<close> against four literals, so a clip without the member behaves as one
    whose priority is any other string;
  \<^item> \<open>position\<close>: \<^verbatim>\<open>c.position\<close>, an integer, \<open>None\<close> when absent;
  \<^item> \<open>addedAt\<close>: the time value of \<^verbatim>\<open>new Date(c.addedAt)\<close> in milliseconds,
    \<open>None\<close> when that is an Invalid Date (its number is NaN);
  \<^item> \<open>title\<close>: \<^verbatim>\<open>c.title\<close>, only printed;
  \<^item> \<open>played\<close>: whether \<^verbatim>\<open>c._played\<close> is truthy.
\<close>

record clip =
  clip_id :: string
  path :: "string option"
  priority :: string
  position :: "int option"
  addedAt :: "int option"
  title :: "string option"
  played :: bool

text \<open>
  A playlist is the value \<^verbatim>\<open>JSON.parse\<close> returned when it is truthy: \<open>clips\<close> is its
  \<^verbatim>\<open>clips\<close> array (\<open>None\<close> when the value has no such member), \<open>members\<close>
  stands for every other member of the object, which the engine never reads and
  writes back as it found it.
\<close>

record playlist =
  clips :: "clip list option"
  members :: "(string \<times> string) list"

subsection \<open>Array.prototype.sort with a comparator\<close>

text \<open>
  A comparator returns a number; \<open>None\<close> stands for NaN. The language standard's
  SortCompare reads NaN as \<open>+0\<close>. The sort is stable: \<open>js_sort\<close> is the stable
  insertion sort, where an element goes in front of the first later element that its
  comparator does not put it after. For a consistent comparator every stable sort gives
  this result. A comparator that returns NaN for some pairs only is not consistent, and
  the standard then leaves the order to the implementation: \<open>js_sort\<close> is one such
  order. The properties below that speak of the order by date assume valid dates, for
  which the comparators are consistent.
\<close>

definition sortCompare :: "('a \<Rightarrow> 'a \<Rightarrow> int option) \<Rightarrow> 'a \<Rightarrow> 'a \<Rightarrow> int" where
  "sortCompare cmp a b = (case cmp a b of None \<Rightarrow> 0 | Some v \<Rightarrow> v)"

fun js_insert :: "('a \<Rightarrow> 'a \<Rightarrow> int option) \<Rightarrow> 'a \<Rightarrow> 'a list \<Rightarrow> 'a list" where
  "js_insert cmp x [] = [x]"
| "js_insert cmp x (y # ys) =
     (if sortCompare cmp x y \<le> 0 then x # y # ys else y # js_insert cmp x ys)"

definition js_sort :: "('a \<Rightarrow> 'a \<Rightarrow> int option) \<Rightarrow> 'a list \<Rightarrow> 'a list" where
  "js_sort cmp xs = foldr (js_insert cmp) xs []"

subsection \<open>getOrderedClips\<close>

text \<open>\<^verbatim>\<open>(c.position || 0)\<close>: an absent position counts as 0.\<close>

definition position_or_0 :: "clip \<Rightarrow> int" where
  "position_or_0 c = (case position c of None \<Rightarrow> 0 | Some p \<Rightarrow> p)"

text \<open>\<^verbatim>\<open>new Date(x) - new Date(y)\<close>: NaN as soon as one date is invalid.\<close>

definition date_minus :: "int option \<Rightarrow> int option \<Rightarrow> int option" where
  "date_minus x y =
     (case x of None \<Rightarrow> None
      | Some a \<Rightarrow> (case y of None \<Rightarrow> None | Some b \<Rightarrow> Some (a - b)))"

definition cmp_pinned :: "clip \<Rightarrow> clip \<Rightarrow> int option" where
  "cmp_pinned a b = Some (position_or_0 a - position_or_0 b)"

definition cmp_breaking :: "clip \<Rightarrow> clip \<Rightarrow> int option" where
  "cmp_breaking a b = date_minus (addedAt b) (addedAt a)"

definition cmp_normal :: "clip \<Rightarrow> clip \<Rightarrow> int option" where
  "cmp_normal a b = date_minus (addedAt a) (addedAt b)"

definition pinned_bucket :: "clip list \<Rightarrow> clip list" where
  "pinned_bucket cs = js_sort cmp_pinned (filter (\<lambda>c. priority c = ''pinned'') cs)"

definition breaking_bucket :: "clip list \<Rightarrow> clip list" where
  "breaking_bucket cs = js_sort cmp_breaking (filter (\<lambda>c. priority c = ''breaking'') cs)"

definition normal_bucket :: "clip list \<Rightarrow> clip list" where
  "normal_bucket cs = js_sort cmp_normal (filter (\<lambda>c. priority c = ''normal'') cs)"

definition filler_bucket :: "clip list \<Rightarrow> clip list" where
  "filler_bucket cs = filter (\<lambda>c. priority c = ''filler'') cs"

text \<open>
  The argument is \<open>None\<close> for \<^verbatim>\<open>null\<close>; \<^verbatim>\<open>!playlist?.clips?.length\<close> holds for
  \<^verbatim>\<open>null\<close>, for a value without \<^verbatim>\<open>clips\<close> and for an empty array.
\<close>

definition getOrderedClips :: "playlist option \<Rightarrow> clip list" where
  "getOrderedClips playlist =
     (case playlist of
        None \<Rightarrow> []
      | Some pl \<Rightarrow>
          (case clips pl of
             None \<Rightarrow> []
           | Some cs \<Rightarrow>
               if cs = [] then []
               else pinned_bucket cs @ breaking_bucket cs @ normal_bucket cs @ filler_bucket cs))"

subsection \<open>The two files\<close>

text \<open>
  What \<^verbatim>\<open>playlist.json\<close> holds at some moment: no file, text that
  \<^verbatim>\<open>JSON.parse\<close> rejects, a falsy JSON value (\<^verbatim>\<open>null\<close>, \<^verbatim>\<open>false\<close>, \<^verbatim>\<open>0\<close>,
  \<^verbatim>\<open>""\<close>), or a truthy value. \<^verbatim>\<open>JSON.stringify\<close> followed by \<^verbatim>\<open>JSON.parse\<close>
  gives the value back, so a file the engine wrote is \<open>Parsed\<close> of what it wrote.
\<close>

datatype playlist_file = NoFile | Malformed | Falsy | Parsed playlist

text \<open>
  The engine state, and the members of \<^verbatim>\<open>engine-state.json\<close> that the engine
  reads back: a member is \<open>None\<close> when the parsed object does not have it.
\<close>

record engine_state =
  running :: bool
  currentClipId :: "string option"
  currentIndex :: int
  loopCount :: int
  startedAt :: string
  clipsPlayed :: int
  errors :: int

record persisted =
  s_running :: "bool option"
  s_currentClipId :: "string option option"
  s_currentIndex :: "int option"
  s_loopCount :: "int option"
  s_startedAt :: "string option"
  s_clipsPlayed :: "int option"
  s_errors :: "int option"

datatype state_file = NoStateFile | BadStateFile | StateJson persisted

subsection \<open>The world outside the engine\<close>

text \<open>
  What the engine does to the outside is recorded in \<open>trace\<close>, in order: a wait of
  so many milliseconds, a clip that was not found, a clip that ffmpeg streamed (with the
  code the promise resolved to, \<open>None\<close> for \<^verbatim>\<open>null\<close>), a transition, a write of
  \<^verbatim>\<open>playlist.json\<close>.
\<close>

datatype event =
    Waited nat
  | NotFound string
  | Streamed string "int option"
  | Transition
  | PlaylistWritten playlist

record world =
  playlist_json :: playlist_file
  state_json :: state_file
  tick :: nat
  trace :: "event list"

text \<open>
  The environment of a run. \<open>join\<close> is \<^verbatim>\<open>path.join\<close>. Other processes write
  \<^verbatim>\<open>playlist.json\<close> at any time: \<open>producers e t\<close> is what they did to the file
  before the engine's access number \<open>t\<close>. \<open>existsSync e t\<close> and \<open>ffmpeg e t\<close> are
  the file system and the outcome of ffmpeg at access \<open>t\<close>.
\<close>

record env =
  queueDir :: string
  join :: "string \<Rightarrow> string \<Rightarrow> string"
  producers :: "nat \<Rightarrow> playlist_file \<Rightarrow> playlist_file"
  existsSync :: "nat \<Rightarrow> string \<Rightarrow> bool"
  ffmpeg :: "nat \<Rightarrow> string \<Rightarrow> int option"

datatype exn = TypeError

subsection \<open>loadState and saveState\<close>

text \<open>
  \<^verbatim>\<open>{ ...engineState, ...JSON.parse(...) }\<close>: every member the file has replaces the
  one in memory.
\<close>

definition spread :: "engine_state \<Rightarrow> persisted \<Rightarrow> engine_state" where
  "spread st p =
     \<lparr> running = (case s_running p of None \<Rightarrow> running st | Some v \<Rightarrow> v),
       currentClipId = (case s_currentClipId p of None \<Rightarrow> currentClipId st | Some v \<Rightarrow> v),
       currentIndex = (case s_currentIndex p of None \<Rightarrow> currentIndex st | Some v \<Rightarrow> v),
       loopCount = (case s_loopCount p of None \<Rightarrow> loopCount st | Some v \<Rightarrow> v),
       startedAt = (case s_startedAt p of None \<Rightarrow> startedAt st | Some v \<Rightarrow> v),
       clipsPlayed = (case s_clipsPlayed p of None \<Rightarrow> clipsPlayed st | Some v \<Rightarrow> v),
       errors = (case s_errors p of None \<Rightarrow> errors st | Some v \<Rightarrow> v) \<rparr>"

definition loadState :: "state_file \<Rightarrow> engine_state \<Rightarrow> engine_state" where
  "loadState f engineState =
     (case f of
        NoStateFile \<Rightarrow> engineState
      | BadStateFile \<Rightarrow> engineState
      | StateJson p \<Rightarrow> spread engineState p)"

definition stringify :: "engine_state \<Rightarrow> persisted" where
  "stringify st =
     \<lparr> s_running = Some (running st),
       s_currentClipId = Some (currentClipId st),
       s_currentIndex = Some (currentIndex st),
       s_loopCount = Some (loopCount st),
       s_startedAt = Some (startedAt st),
       s_clipsPlayed = Some (clipsPlayed st),
       s_errors = Some (errors st) \<rparr>"

definition saveState :: "engine_state \<Rightarrow> world \<Rightarrow> world" where
  "saveState engineState w = w\<lparr>state_json := StateJson (stringify engineState)\<rparr>"

text \<open>The state the module starts with; \<open>now\<close> is \<^verbatim>\<open>new Date().toISOString()\<close>.\<close>

definition initial_state :: "string \<Rightarrow> engine_state" where
  "initial_state now =
     \<lparr> running = True, currentClipId = None, currentIndex = 0, loopCount = 0,
       startedAt = now, clipsPlayed = 0, errors = 0 \<rparr>"

subsection \<open>loadPlaylist, playClip, playTransition\<close>

text \<open>
  \<^verbatim>\<open>loadPlaylist\<close> returns \<^verbatim>\<open>null\<close> for a missing or a malformed file and the
  parsed value otherwise; each of its three callers only asks whether the value is
  truthy, so a falsy value is \<open>None\<close> as well.
\<close>

definition truthy :: "playlist_file \<Rightarrow> playlist option" where
  "truthy f = (case f of NoFile \<Rightarrow> None | Malformed \<Rightarrow> None | Falsy \<Rightarrow> None | Parsed pl \<Rightarrow> Some pl)"

definition loadPlaylist :: "env \<Rightarrow> world \<Rightarrow> playlist option \<times> world" where
  "loadPlaylist e w =
     (let f = producers e (tick w) (playlist_json w)
      in (truthy f, w\<lparr>playlist_json := f, tick := tick w + 1\<rparr>))"

definition playClip :: "env \<Rightarrow> world \<Rightarrow> string \<Rightarrow> int option \<times> world" where
  "playClip e w clipPath =
     (if \<not> existsSync e (tick w) clipPath
      then (Some 1, w\<lparr>tick := tick w + 1, trace := trace w @ [NotFound clipPath]\<rparr>)
      else (let code = ffmpeg e (tick w) clipPath
            in (code, w\<lparr>tick := tick w + 1, trace := trace w @ [Streamed clipPath code]\<rparr>)))"

definition playTransition :: "world \<Rightarrow> world" where
  "playTransition w = w\<lparr>trace := trace w @ [Transition]\<rparr>"

definition wait :: "nat \<Rightarrow> world \<Rightarrow> world" where
  "wait ms w = w\<lparr>trace := trace w @ [Waited ms]\<rparr>"

definition writePlaylist :: "playlist \<Rightarrow> world \<Rightarrow> world" where
  "writePlaylist pl w = w\<lparr>playlist_json := Parsed pl, trace := trace w @ [PlaylistWritten pl]\<rparr>"

subsection \<open>One pass: the \<^verbatim>\<open>for\<close> loop of main\<close>

text \<open>
  The locals of a pass: \<open>snapshot\<close> is \<^verbatim>\<open>playlist\<close>, the value loaded at the head of
  the \<^verbatim>\<open>while\<close> loop, and \<open>ordered\<close> is \<^verbatim>\<open>ordered\<close>. The arrays that
  \<^verbatim>\<open>getOrderedClips\<close> returns hold the very objects of the playlist it was given, so
  \<^verbatim>\<open>clip._played = true\<close> on a clip taken from \<^verbatim>\<open>getOrderedClips(playlist)\<close> marks
  that object in \<open>snapshot\<close> and in \<open>ordered\<close>. The object is the first one with its
  value: filtering and a stable sort keep equal clips in the order of the array.
\<close>

record pass =
  snapshot :: playlist
  ordered :: "clip list"

fun mark_played :: "clip \<Rightarrow> clip list \<Rightarrow> clip list" where
  "mark_played c [] = []"
| "mark_played c (x # xs) = (if x = c then x\<lparr>played := True\<rparr> # xs else x # mark_played c xs)"

definition mark_in_pass :: "clip \<Rightarrow> pass \<Rightarrow> pass" where
  "mark_in_pass c p =
     p\<lparr>snapshot := (snapshot p)\<lparr>clips := map_option (mark_played c) (clips (snapshot p))\<rparr>,
       ordered := mark_played c (ordered p)\<rparr>"

text \<open>\<^verbatim>\<open>freshOrdered.filter(c => c.priority === 'breaking' && !c._played)\<close>\<close>

definition pending_breaking :: "clip list \<Rightarrow> clip list" where
  "pending_breaking freshOrdered =
     filter (\<lambda>c. priority c = ''breaking'' \<and> \<not> played c) freshOrdered"

text \<open>
  Lines 137 to 147: the reload, the check for breaking clips and the choice of the
  step's clip. The clip is \<open>None\<close> when \<^verbatim>\<open>ordered[i]\<close> is \<^verbatim>\<open>undefined\<close>. A mark
  set on a clip of \<^verbatim>\<open>freshPlaylist\<close> is lost with that value; a mark set while
  \<^verbatim>\<open>freshPlaylist\<close> is \<^verbatim>\<open>null\<close> lands in the pass's own playlist.
\<close>

definition select_clip :: "env \<Rightarrow> nat \<Rightarrow> pass \<Rightarrow> world \<Rightarrow> clip option \<times> pass \<times> world" where
  "select_clip e i p w =
     (let (freshPlaylist, w1) = loadPlaylist e w;
          freshOrdered =
            getOrderedClips (Some (case freshPlaylist of None \<Rightarrow> snapshot p | Some f \<Rightarrow> f));
          breaking = pending_breaking freshOrdered
      in if breaking \<noteq> [] \<and> 0 < i
         then (Some ((hd breaking)\<lparr>played := True\<rparr>),
               (case freshPlaylist of None \<Rightarrow> mark_in_pass (hd breaking) p | Some f \<Rightarrow> p),
               w1)
         else (if i < length (ordered p) then Some (ordered p ! i) else None, p, w1))"

text \<open>
  Lines 149 to 162. \<^verbatim>\<open>clip.path\<close> of an undefined clip and \<^verbatim>\<open>join\<close> of an
  undefined path throw a TypeError, which leaves \<^verbatim>\<open>main\<close>.
\<close>

definition deliver ::
  "env \<Rightarrow> nat \<Rightarrow> clip \<Rightarrow> engine_state \<times> world \<Rightarrow> exn + engine_state \<times> world" where
  "deliver e i clip s =
     (case s of (engineState, w) \<Rightarrow>
        (case path clip of
           None \<Rightarrow> Inl TypeError
         | Some rel \<Rightarrow>
             (let clipPath = join e (queueDir e) rel;
                  st1 = engineState\<lparr>currentClipId := Some (clip_id clip), currentIndex := int i\<rparr>;
                  w1 = saveState st1 w;
                  (code, w2) = playClip e w1 clipPath;
                  st2 = (if code \<noteq> Some 0 then st1\<lparr>errors := errors st1 + 1\<rparr> else st1);
                  st3 = st2\<lparr>clipsPlayed := clipsPlayed st2 + 1\<rparr>
              in Inr (st3, playTransition w2))))"

definition play_step ::
  "env \<Rightarrow> nat \<Rightarrow> engine_state \<times> pass \<times> world \<Rightarrow> exn + engine_state \<times> pass \<times> world" where
  "play_step e i s =
     (case s of (engineState, p, w) \<Rightarrow>
        (case select_clip e i p w of
           (None, p1, w1) \<Rightarrow> Inl TypeError
         | (Some clip, p1, w1) \<Rightarrow>
             (case deliver e i clip (engineState, w1) of
                Inl x \<Rightarrow> Inl x
              | Inr (st', w') \<Rightarrow> Inr (st', p1, w'))))"

lemma length_mark_played: "length (mark_played c xs) = length xs"
  by (induction xs) simp_all

lemma select_clip_length:
  "select_clip e i p w = (c, p1, w1) \<Longrightarrow> length (ordered p1) = length (ordered p)"
  by (auto simp: select_clip_def Let_def mark_in_pass_def length_mark_played
           split: prod.splits if_splits option.splits)

lemma play_step_length:
  "play_step e i (st, p, w) = Inr (st', p', w') \<Longrightarrow> length (ordered p') = length (ordered p)"
  by (auto simp: play_step_def dest: select_clip_length split: prod.splits option.splits sum.splits)

text \<open>\<^verbatim>\<open>for (let i = 0; i < ordered.length; i++)\<close>, from step \<open>i\<close> on.\<close>

function play_pass ::
  "env \<Rightarrow> nat \<Rightarrow> engine_state \<times> pass \<times> world \<Rightarrow> exn + engine_state \<times> pass \<times> world" where
  "play_pass e i s =
     (if i < length (ordered (fst (snd s)))
      then (case play_step e i s of Inl x \<Rightarrow> Inl x | Inr s' \<Rightarrow> play_pass e (i + 1) s')
      else Inr s)"
  by pat_completeness auto
termination
proof (relation "measure (\<lambda>(e, i, s). length (ordered (fst (snd s))) - i)")
  show "wf (measure (\<lambda>(e, i, s). length (ordered (fst (snd s))) - i))"
    by simp
next
  fix e :: env and i :: nat and s s' :: "engine_state \<times> pass \<times> world"
  assume lt: "i < length (ordered (fst (snd s)))" and step: "play_step e i s = Inr s'"
  obtain st p w where s: "s = (st, p, w)" by (cases s)
  obtain st' p' w' where s': "s' = (st', p', w')" by (cases s')
  from step have "length (ordered p') = length (ordered p)"
    unfolding s s' by (rule play_step_length)
  with lt show "((e, i + 1, s'), (e, i, s)) \<in> measure (\<lambda>(e, i, s). length (ordered (fst (snd s))) - i)"
    by (simp add: s s')
qed

subsection \<open>The end of a pass and the \<^verbatim>\<open>while\<close> loop\<close>

text \<open>
  Lines 169 to 173. \<^verbatim>\<open>pl.clips.filter\<close> throws a TypeError when the value that was
  loaded has no \<^verbatim>\<open>clips\<close>.
\<close>

definition prune :: "env \<Rightarrow> world \<Rightarrow> exn + world" where
  "prune e w =
     (let (pl, w1) = loadPlaylist e w
      in case pl of
           None \<Rightarrow> Inr w1
         | Some p \<Rightarrow>
             (case clips p of
                None \<Rightarrow> Inl TypeError
              | Some cs \<Rightarrow>
                  Inr (writePlaylist (p\<lparr>clips := Some (filter (\<lambda>c. priority c \<noteq> ''breaking'') cs)\<rparr>) w1)))"

text \<open>Lines 165 to 173.\<close>

definition pass_complete :: "env \<Rightarrow> engine_state \<times> world \<Rightarrow> exn + engine_state \<times> world" where
  "pass_complete e s =
     (case s of (engineState, w) \<Rightarrow>
        (let st1 = engineState\<lparr>loopCount := loopCount engineState + 1\<rparr>;
             w1 = saveState st1 w
         in case prune e w1 of Inl x \<Rightarrow> Inl x | Inr w2 \<Rightarrow> Inr (st1, w2)))"

text \<open>The body of \<^verbatim>\<open>while (engineState.running)\<close>, lines 123 to 173.\<close>

definition iteration :: "env \<Rightarrow> engine_state \<times> world \<Rightarrow> exn + engine_state \<times> world" where
  "iteration e s =
     (case s of (engineState, w) \<Rightarrow>
        (let (playlist, w1) = loadPlaylist e w
         in case playlist of
              None \<Rightarrow> Inr (engineState, wait 10000 w1)
            | Some pl \<Rightarrow>
                (let ordered = getOrderedClips (Some pl)
                 in if length ordered = 0 then Inr (engineState, wait 10000 w1)
                    else (case play_pass e 0 (engineState, \<lparr>snapshot = pl, ordered = ordered\<rparr>, w1) of
                            Inl x \<Rightarrow> Inl x
                          | Inr (st2, p2, w2) \<Rightarrow> pass_complete e (st2, w2)))))"

text \<open>
  The loop runs for as long as \<^verbatim>\<open>engineState.running\<close> holds, which nothing in
  \<^verbatim>\<open>main\<close> changes: \<open>main_loop n\<close> is its first \<open>n\<close> iterations, and \<open>Inl\<close> an
  exception that left it.
\<close>

fun main_loop :: "nat \<Rightarrow> env \<Rightarrow> engine_state \<times> world \<Rightarrow> exn + engine_state \<times> world" where
  "main_loop 0 e s = Inr s"
| "main_loop (Suc n) e s =
     (if running (fst s)
      then (case iteration e s of Inl x \<Rightarrow> Inl x | Inr s' \<Rightarrow> main_loop n e s')
      else Inr s)"

text \<open>
  \<^verbatim>\<open>main\<close>: \<^verbatim>\<open>loadState()\<close>, then the loop. The handlers of SIGINT and SIGTERM
  end the process from outside \<^verbatim>\<open>main\<close> and are not part of this model; neither are
  failures of the file system while a file is written.
\<close>

definition main :: "nat \<Rightarrow> env \<Rightarrow> string \<Rightarrow> world \<Rightarrow> exn + engine_state \<times> world" where
  "main n e now w = main_loop n e (loadState (state_json w) (initial_state now), w)"

section \<open>Notions used to state the properties\<close>

text \<open>
  \<open>time_of\<close> is the time value of a clip whose date is valid. \<open>dated_in tier\<close>
  says that every clip of the tier has a valid date, which is when ordering the tier by
  \<^verbatim>\<open>addedAt\<close> means something, and \<open>dated\<close> says so of the breaking and of the
  normal clips. \<open>ties c d\<close> says that the ordering policy does not
  tell \<open>d\<close> from \<open>c\<close>: same tier of the four and same sort key (no key in the filler
  tier), so that their order in the result is their order in the input.
\<close>

definition time_of :: "clip \<Rightarrow> int" where
  "time_of c = (case addedAt c of None \<Rightarrow> 0 | Some t \<Rightarrow> t)"

definition dated_in :: "string \<Rightarrow> clip list \<Rightarrow> bool" where
  "dated_in tier cs = (\<forall>c\<in>set cs. priority c = tier \<longrightarrow> addedAt c \<noteq> None)"

definition dated :: "clip list \<Rightarrow> bool" where
  "dated cs \<longleftrightarrow> dated_in ''breaking'' cs \<and> dated_in ''normal'' cs"

definition ties :: "clip \<Rightarrow> clip \<Rightarrow> bool" where
  "ties c d \<longleftrightarrow>
     priority d = priority c \<and>
     (if priority c = ''pinned'' then position_or_0 d = position_or_0 c
      else if priority c = ''breaking'' \<or> priority c = ''normal'' then addedAt d = addedAt c
      else priority c = ''filler'')"

text \<open>
  \<open>recognized\<close>: the priority is one of the four the engine knows.
  \<open>first_pending f\<close> is the clip a step with index above 0 substitutes when its reload
  finds \<open>f\<close>: the first breaking clip without a mark in the order of \<open>f\<close>.
  \<open>played_paths\<close> are the paths handed to \<^verbatim>\<open>playClip\<close>, in order.
  \<open>found e w\<close> is what a load in world \<open>w\<close> finds, \<open>idle f\<close> says that the order of
  \<open>f\<close> is empty (the \<^verbatim>\<open>while\<close> loop then waits), and \<open>polls e k w\<close> is the world
  after \<open>k\<close> loads that were each followed by the wait.
\<close>

definition recognized :: "clip \<Rightarrow> bool" where
  "recognized c \<longleftrightarrow>
     priority c = ''pinned'' \<or> priority c = ''breaking'' \<or> priority c = ''normal'' \<or>
     priority c = ''filler''"

definition first_pending :: "playlist_file \<Rightarrow> clip option" where
  "first_pending f =
     (case truthy f of
        None \<Rightarrow> None
      | Some pl \<Rightarrow>
          (case pending_breaking (getOrderedClips (Some pl)) of [] \<Rightarrow> None | b # bs \<Rightarrow> Some b))"

fun played_paths :: "event list \<Rightarrow> string list" where
  "played_paths [] = []"
| "played_paths (NotFound q # evs) = q # played_paths evs"
| "played_paths (Streamed q code # evs) = q # played_paths evs"
| "played_paths (ev # evs) = played_paths evs"

fun polls :: "env \<Rightarrow> nat \<Rightarrow> world \<Rightarrow> world" where
  "polls e 0 w = w"
| "polls e (Suc k) w = polls e k (wait 10000 (snd (loadPlaylist e w)))"

definition idle :: "playlist_file \<Rightarrow> bool" where
  "idle f \<longleftrightarrow> getOrderedClips (truthy f) = []"

definition found :: "env \<Rightarrow> world \<Rightarrow> playlist_file" where
  "found e w = producers e (tick w) (playlist_json w)"

text \<open>
  For a pass whose reloads all fail: \<open>fallback_order i k pend plan\<close> is what the steps
  \<open>i, \<dots>, i + k - 1\<close> take when \<open>pend\<close> are the breaking clips without a mark of
  the pass's own playlist, in its order, and \<open>plan\<close> is the plan. A step above 0 takes
  the first of \<open>pend\<close>, which is then marked and no longer pending; a step that finds
  none, and step 0, take their own clip of the plan. \<open>clip_file e c\<close> is the path the
  step hands to \<^verbatim>\<open>playClip\<close> for the clip \<open>c\<close>, and \<open>waited\<close> are the waits in a
  trace.
\<close>

fun fallback_order :: "nat \<Rightarrow> nat \<Rightarrow> 'a list \<Rightarrow> 'a list \<Rightarrow> 'a list" where
  "fallback_order i 0 pend plan = []"
| "fallback_order i (Suc k) pend plan =
     (if pend \<noteq> [] \<and> 0 < i then hd pend # fallback_order (Suc i) k (tl pend) plan
      else plan ! i # fallback_order (Suc i) k pend plan)"

definition clip_file :: "env \<Rightarrow> clip \<Rightarrow> string" where
  "clip_file e c = join e (queueDir e) (case path c of None \<Rightarrow> [] | Some rel \<Rightarrow> rel)"

fun waited :: "event list \<Rightarrow> nat list" where
  "waited [] = []"
| "waited (Waited ms # evs) = ms # waited evs"
| "waited (ev # evs) = waited evs"

subsection \<open>Example data\<close>

text \<open>
  \<open>mk_clip\<close> makes a clip without a mark from an id, a priority, a position and a
  date; its file is the id with \<^verbatim>\<open>.mp4\<close>. The examples are the playlist
  \<open>a, b, c, d\<close> of the specification, a clip with the priority \<^verbatim>\<open>urgent\<close>, the
  clips \<open>x, y, z\<close> (normal, added at 0, 1, 2), \<open>w\<close> and \<open>v\<close> (breaking, added at 5
  and at 3), an
  environment where \<^verbatim>\<open>path.join\<close> puts a slash between its arguments and ffmpeg
  succeeds, and a saved engine state.
\<close>

definition mk_clip :: "string \<Rightarrow> string \<Rightarrow> int option \<Rightarrow> int option \<Rightarrow> clip" where
  "mk_clip i pr pos t =
     \<lparr>clip_id = i, path = Some (i @ ''.mp4''), priority = pr, position = pos, addedAt = t,
      title = None, played = False\<rparr>"

definition scenario_playlist :: "int \<Rightarrow> int \<Rightarrow> clip list" where
  "scenario_playlist T0 T1 =
     [mk_clip ''a'' ''pinned'' (Some 1) None, mk_clip ''b'' ''pinned'' (Some 0) None,
      mk_clip ''c'' ''normal'' None (Some T1), mk_clip ''d'' ''normal'' None (Some T0)]"

definition urgent_clip :: clip where
  "urgent_clip = mk_clip ''u'' ''urgent'' None (Some 0)"

definition xyz :: "clip list" where
  "xyz = [mk_clip ''x'' ''normal'' None (Some 0), mk_clip ''y'' ''normal'' None (Some 1),
          mk_clip ''z'' ''normal'' None (Some 2)]"

definition breaking_w :: clip where
  "breaking_w = mk_clip ''w'' ''breaking'' None (Some 5)"

definition breaking_v :: clip where
  "breaking_v = mk_clip ''v'' ''breaking'' None (Some 3)"

definition store_of :: "clip list \<Rightarrow> playlist_file" where
  "store_of cs = Parsed \<lparr>clips = Some cs, members = []\<rparr>"

definition world_at :: "nat \<Rightarrow> playlist_file \<Rightarrow> world" where
  "world_at t f = \<lparr>playlist_json = f, state_json = NoStateFile, tick = t, trace = []\<rparr>"

definition env_of :: "(nat \<Rightarrow> playlist_file \<Rightarrow> playlist_file) \<Rightarrow> (string \<Rightarrow> bool) \<Rightarrow> env" where
  "env_of pr ex =
     \<lparr>queueDir = ''queue'', join = (\<lambda>d r. d @ ''/'' @ r), producers = pr,
      existsSync = (\<lambda>t. ex), ffmpeg = (\<lambda>t q. Some 0)\<rparr>"

definition quiet_env :: env where
  "quiet_env = env_of (\<lambda>t f. f) (\<lambda>q. True)"

definition xyz_pass :: pass where
  "xyz_pass = \<lparr>snapshot = \<lparr>clips = Some xyz, members = []\<rparr>, ordered = xyz\<rparr>"

definition saved_state :: engine_state where
  "saved_state =
     \<lparr> running = True, currentClipId = Some ''intro'', currentIndex = 2, loopCount = 7,
       startedAt = ''2026-02-21T12:00:00.000Z'', clipsPlayed = 23, errors = 4 \<rparr>"

text \<open>
  The file is gone at the engine's access 0, is there with zero clips at access 1, and
  holds \<open>x, y, z\<close> at access 2; nobody touches it afterwards.
\<close>

definition reappearing_env :: env where
  "reappearing_env =
     env_of (\<lambda>t f. if t = 0 then NoFile else if t = 1 then store_of []
                    else if t = 2 then store_of xyz else f) (\<lambda>q. True)"

text \<open>
  A pass whose playlist and plan are \<open>w, x, y\<close>, and an environment where the file is
  gone at every access.
\<close>

definition wxy :: "clip list" where
  "wxy = [breaking_w, mk_clip ''x'' ''normal'' None (Some 0), mk_clip ''y'' ''normal'' None (Some 1)]"

definition wxy_pass :: pass where
  "wxy_pass = \<lparr>snapshot = \<lparr>clips = Some wxy, members = []\<rparr>, ordered = wxy\<rparr>"

definition gone_env :: env where
  "gone_env = env_of (\<lambda>t f. NoFile) (\<lambda>q. True)"

lemmas scen_defs = xyz_def breaking_w_def store_of_def world_at_def env_of_def quiet_env_def
  xyz_pass_def mk_clip_def

lemmas order_defs = getOrderedClips_def pinned_bucket_def breaking_bucket_def normal_bucket_def
  filler_bucket_def js_sort_def sortCompare_def cmp_pinned_def cmp_breaking_def cmp_normal_def
  position_or_0_def date_minus_def pending_breaking_def

lemmas step_defs = iteration_def select_clip_def play_step_def deliver_def loadPlaylist_def
  truthy_def playClip_def playTransition_def saveState_def wait_def pass_complete_def prune_def
  writePlaylist_def Let_def initial_state_def

section \<open>The ordering policy\<close>

subsection \<open>The comparator sort is the stable sort by key\<close>

lemma set_js_insert: "set (js_insert cmp x ys) = insert x (set ys)"
  by (induction ys) auto

lemma set_js_sort: "set (js_sort cmp xs) = set xs"
  by (induction xs) (auto simp: js_sort_def set_js_insert)

lemma js_insert_insort_key:
  "(\<And>y. y \<in> set ys \<Longrightarrow> sortCompare cmp x y \<le> 0 \<longleftrightarrow> f x \<le> f y)
   \<Longrightarrow> js_insert cmp x ys = insort_key f x ys"
  by (induction ys) auto

lemma js_sort_sort_key:
  "(\<And>x y. x \<in> set xs \<Longrightarrow> y \<in> set xs \<Longrightarrow> sortCompare cmp x y \<le> 0 \<longleftrightarrow> f x \<le> f y)
   \<Longrightarrow> js_sort cmp xs = sort_key f xs"
proof (induction xs)
  case Nil
  show ?case by (simp add: js_sort_def)
next
  case (Cons a xs)
  have ih: "js_sort cmp xs = sort_key f xs"
    using Cons.prems by (intro Cons.IH) auto
  have "js_insert cmp a (sort_key f xs) = insort_key f a (sort_key f xs)"
    using Cons.prems by (intro js_insert_insort_key) auto
  with ih show ?case by (simp add: js_sort_def)
qed

lemma pinned_bucket_sort_key:
  "pinned_bucket cs = sort_key position_or_0 (filter (\<lambda>c. priority c = ''pinned'') cs)"
  unfolding pinned_bucket_def
  by (rule js_sort_sort_key) (simp add: sortCompare_def cmp_pinned_def)

lemma sortCompare_normal:
  "addedAt x \<noteq> None \<Longrightarrow> addedAt y \<noteq> None \<Longrightarrow>
   sortCompare cmp_normal x y \<le> 0 \<longleftrightarrow> time_of x \<le> time_of y"
  by (cases "addedAt x"; cases "addedAt y")
     (simp_all add: sortCompare_def cmp_normal_def date_minus_def time_of_def)

lemma sortCompare_breaking:
  "addedAt x \<noteq> None \<Longrightarrow> addedAt y \<noteq> None \<Longrightarrow>
   sortCompare cmp_breaking x y \<le> 0 \<longleftrightarrow> - time_of x \<le> - time_of y"
  by (cases "addedAt x"; cases "addedAt y")
     (simp_all add: sortCompare_def cmp_breaking_def date_minus_def time_of_def)

lemma normal_bucket_sort_key:
  assumes "dated_in ''normal'' cs"
  shows "normal_bucket cs = sort_key time_of (filter (\<lambda>c. priority c = ''normal'') cs)"
  unfolding normal_bucket_def
  using assms by (intro js_sort_sort_key sortCompare_normal) (auto simp: dated_in_def)

lemma breaking_bucket_sort_key:
  assumes "dated_in ''breaking'' cs"
  shows "breaking_bucket cs = sort_key (\<lambda>c. - time_of c) (filter (\<lambda>c. priority c = ''breaking'') cs)"
  unfolding breaking_bucket_def
  using assms by (intro js_sort_sort_key sortCompare_breaking) (auto simp: dated_in_def)

lemma getOrderedClips_buckets:
  "clips pl = Some cs \<Longrightarrow>
   getOrderedClips (Some pl) =
     pinned_bucket cs @ breaking_bucket cs @ normal_bucket cs @ filler_bucket cs"
  by (simp add: getOrderedClips_def pinned_bucket_def breaking_bucket_def normal_bucket_def
        filler_bucket_def js_sort_def)

lemma pinned_bucket_props:
  "mset (pinned_bucket cs) = filter_mset (\<lambda>c. priority c = ''pinned'') (mset cs)"
  "sorted_wrt (\<lambda>x y. position_or_0 x \<le> position_or_0 y) (pinned_bucket cs)"
  "filter (\<lambda>d. position_or_0 d = k) (pinned_bucket cs) =
     filter (\<lambda>d. priority d = ''pinned'' \<and> position_or_0 d = k) cs"
proof -
  let ?xs = "filter (\<lambda>c. priority c = ''pinned'') cs"
  show "mset (pinned_bucket cs) = filter_mset (\<lambda>c. priority c = ''pinned'') (mset cs)"
    by (simp add: pinned_bucket_sort_key)
  have "sorted (map position_or_0 (sort_key position_or_0 ?xs))"
    by (rule sorted_sort_key)
  then show "sorted_wrt (\<lambda>x y. position_or_0 x \<le> position_or_0 y) (pinned_bucket cs)"
    by (simp add: pinned_bucket_sort_key sorted_map)
  have "filter (\<lambda>d. position_or_0 d = k) (sort_key position_or_0 ?xs) =
        filter (\<lambda>d. position_or_0 d = k) ?xs"
    by (rule sort_key_stable)
  then show "filter (\<lambda>d. position_or_0 d = k) (pinned_bucket cs) =
     filter (\<lambda>d. priority d = ''pinned'' \<and> position_or_0 d = k) cs"
    by (simp add: pinned_bucket_sort_key conj_commute)
qed

lemma normal_bucket_props:
  assumes "dated_in ''normal'' cs"
  shows "mset (normal_bucket cs) = filter_mset (\<lambda>c. priority c = ''normal'') (mset cs)"
  "sorted_wrt (\<lambda>x y. time_of x \<le> time_of y) (normal_bucket cs)"
  "filter (\<lambda>d. time_of d = k) (normal_bucket cs) =
     filter (\<lambda>d. priority d = ''normal'' \<and> time_of d = k) cs"
proof -
  let ?xs = "filter (\<lambda>c. priority c = ''normal'') cs"
  note eq = normal_bucket_sort_key[OF assms]
  show "mset (normal_bucket cs) = filter_mset (\<lambda>c. priority c = ''normal'') (mset cs)"
    by (simp add: eq)
  have "sorted (map time_of (sort_key time_of ?xs))"
    by (rule sorted_sort_key)
  then show "sorted_wrt (\<lambda>x y. time_of x \<le> time_of y) (normal_bucket cs)"
    by (simp add: eq sorted_map)
  have "filter (\<lambda>d. time_of d = k) (sort_key time_of ?xs) = filter (\<lambda>d. time_of d = k) ?xs"
    by (rule sort_key_stable)
  then show "filter (\<lambda>d. time_of d = k) (normal_bucket cs) =
     filter (\<lambda>d. priority d = ''normal'' \<and> time_of d = k) cs"
    by (simp add: eq conj_commute)
qed

lemma breaking_bucket_props:
  assumes "dated_in ''breaking'' cs"
  shows "mset (breaking_bucket cs) = filter_mset (\<lambda>c. priority c = ''breaking'') (mset cs)"
  "sorted_wrt (\<lambda>x y. time_of y \<le> time_of x) (breaking_bucket cs)"
  "filter (\<lambda>d. time_of d = k) (breaking_bucket cs) =
     filter (\<lambda>d. priority d = ''breaking'' \<and> time_of d = k) cs"
proof -
  let ?xs = "filter (\<lambda>c. priority c = ''breaking'') cs"
  let ?f = "\<lambda>c. - time_of c"
  note eq = breaking_bucket_sort_key[OF assms]
  show "mset (breaking_bucket cs) = filter_mset (\<lambda>c. priority c = ''breaking'') (mset cs)"
    by (simp add: eq)
  have "sorted (map ?f (sort_key ?f ?xs))"
    by (rule sorted_sort_key)
  then show "sorted_wrt (\<lambda>x y. time_of y \<le> time_of x) (breaking_bucket cs)"
    by (simp add: eq sorted_map)
  have "filter (\<lambda>d. ?f d = - k) (sort_key ?f ?xs) = filter (\<lambda>d. ?f d = - k) ?xs"
    by (rule sort_key_stable)
  then show "filter (\<lambda>d. time_of d = k) (breaking_bucket cs) =
     filter (\<lambda>d. priority d = ''breaking'' \<and> time_of d = k) cs"
    by (simp add: eq conj_commute)
qed

text \<open>Two lists with the same elements and the same order among equal keys sort alike.\<close>

lemma sort_key_filter_perm:
  assumes m: "mset xs' = mset xs"
    and t: "\<And>c. P c \<Longrightarrow> filter (\<lambda>d. P d \<and> f d = f c) xs' = filter (\<lambda>d. P d \<and> f d = f c) xs"
  shows "sort_key f (filter P xs') = sort_key f (filter P xs)"
proof (rule properties_for_sort_key[symmetric])
  show "mset (sort_key f (filter P xs')) = mset (filter P xs)"
    using m by simp
  show "sorted (map f (sort_key f (filter P xs')))"
    by (rule sorted_sort_key)
  fix k assume "k \<in> set (sort_key f (filter P xs'))"
  then have "P k" by simp
  have "filter (\<lambda>x. f k = f x) (sort_key f (filter P xs')) =
        filter (\<lambda>x. f x = f k) (sort_key f (filter P xs'))"
    by (simp add: eq_commute)
  also have "\<dots> = filter (\<lambda>x. f x = f k) (filter P xs')"
    by (rule sort_key_stable)
  also have "\<dots> = filter (\<lambda>d. P d \<and> f d = f k) xs'"
    by (simp add: conj_commute)
  also have "\<dots> = filter (\<lambda>d. P d \<and> f d = f k) xs"
    by (rule t[OF \<open>P k\<close>])
  also have "\<dots> = filter (\<lambda>x. f k = f x) (filter P xs)"
    by (simp add: conj_commute eq_commute)
  finally show "filter (\<lambda>x. f k = f x) (sort_key f (filter P xs')) =
      filter (\<lambda>x. f k = f x) (filter P xs)" .
qed

lemma dated_perm: "mset cs' = mset cs \<Longrightarrow> dated cs \<Longrightarrow> dated cs'"
  by (auto simp: dated_def dated_in_def dest: mset_eq_setD)

lemma ties_time:
  "addedAt c \<noteq> None \<Longrightarrow> addedAt d \<noteq> None \<Longrightarrow> addedAt d = addedAt c \<longleftrightarrow> time_of d = time_of c"
  by (auto simp: time_of_def)

lemma getOrderedClips_perm:
  assumes m: "mset cs' = mset cs" and d: "dated cs"
    and t: "\<And>c. filter (ties c) cs' = filter (ties c) cs"
  shows "getOrderedClips (Some \<lparr>clips = Some cs', members = m'\<rparr>) =
         getOrderedClips (Some \<lparr>clips = Some cs, members = m0\<rparr>)"
proof -
  have d': "dated cs'" using m d by (rule dated_perm)
  have db: "dated_in ''breaking'' cs" "dated_in ''breaking'' cs'"
    and dn: "dated_in ''normal'' cs" "dated_in ''normal'' cs'"
    using d d' by (simp_all add: dated_def)
  have s: "set cs' = set cs" using m by (rule mset_eq_setD)
  have pin: "pinned_bucket cs' = pinned_bucket cs"
    unfolding pinned_bucket_sort_key
  proof (rule sort_key_filter_perm[OF m])
    fix c :: clip assume c: "priority c = ''pinned''"
    have "ties c = (\<lambda>d. priority d = ''pinned'' \<and> position_or_0 d = position_or_0 c)"
      using c by (auto simp: ties_def fun_eq_iff)
    with t[of c] show "filter (\<lambda>d. priority d = ''pinned'' \<and> position_or_0 d = position_or_0 c) cs' =
       filter (\<lambda>d. priority d = ''pinned'' \<and> position_or_0 d = position_or_0 c) cs"
      by simp
  qed
  have key: "filter (\<lambda>d. priority d = pr \<and> g (time_of d) = g (time_of c)) cs' =
       filter (\<lambda>d. priority d = pr \<and> g (time_of d) = g (time_of c)) cs"
    if pr: "pr = ''breaking'' \<or> pr = ''normal''" and c: "priority c = pr" and g: "inj g"
    for c :: clip and pr and g :: "int \<Rightarrow> int"
  proof (cases "c \<in> set cs")
    case True
    then have ac: "addedAt c \<noteq> None" using d pr c by (auto simp: dated_def dated_in_def)
    have "filter (ties c) zs = filter (\<lambda>d. priority d = pr \<and> g (time_of d) = g (time_of c)) zs"
      if "dated zs" for zs
    proof (rule filter_cong[OF refl])
      fix x assume "x \<in> set zs"
      show "ties c x = (priority x = pr \<and> g (time_of x) = g (time_of c))"
      proof (cases "priority x = pr")
        case True
        then have "addedAt x \<noteq> None" using \<open>dated zs\<close> \<open>x \<in> set zs\<close> pr by (auto simp: dated_def dated_in_def)
        then show ?thesis
          using True ac pr c g by (auto simp: ties_def ties_time inj_eq)
      next
        case False
        then show ?thesis using c by (simp add: ties_def)
      qed
    qed
    from this[OF d] this[OF d'] t[of c] show ?thesis by simp
  next
    case False
    text \<open>No tie class is given by a clip outside the list; use one inside, if any.\<close>
    show ?thesis
    proof (cases "\<exists>x\<in>set cs. priority x = pr \<and> time_of x = time_of c")
      case True
      then obtain x where x: "x \<in> set cs" "priority x = pr" "time_of x = time_of c" by blast
      then have ax: "addedAt x \<noteq> None" using d pr by (auto simp: dated_def dated_in_def)
      have "filter (ties x) zs = filter (\<lambda>d. priority d = pr \<and> g (time_of d) = g (time_of c)) zs"
        if "dated zs" for zs
      proof (rule filter_cong[OF refl])
        fix y assume "y \<in> set zs"
        show "ties x y = (priority y = pr \<and> g (time_of y) = g (time_of c))"
        proof (cases "priority y = pr")
          case True
          then have "addedAt y \<noteq> None" using \<open>dated zs\<close> \<open>y \<in> set zs\<close> pr by (auto simp: dated_def dated_in_def)
          then show ?thesis
            using True ax pr x g by (auto simp: ties_def ties_time inj_eq)
        next
          case False
          then show ?thesis using x by (simp add: ties_def)
        qed
      qed
      from this[OF d] this[OF d'] t[of x] show ?thesis by simp
    next
      case False
      then have "filter (\<lambda>d. priority d = pr \<and> g (time_of d) = g (time_of c)) zs = []"
        if "set zs = set cs" for zs
        using that g by (auto simp: filter_empty_conv inj_eq)
      from this[OF s] this[OF refl] show ?thesis by simp
    qed
  qed
  have brk: "breaking_bucket cs' = breaking_bucket cs"
    unfolding breaking_bucket_sort_key[OF db(1)] breaking_bucket_sort_key[OF db(2)]
  proof (rule sort_key_filter_perm[OF m])
    fix c :: clip assume c: "priority c = ''breaking''"
    show "filter (\<lambda>d. priority d = ''breaking'' \<and> - time_of d = - time_of c) cs' =
       filter (\<lambda>d. priority d = ''breaking'' \<and> - time_of d = - time_of c) cs"
      using key[of "''breaking''" c uminus] c by (simp add: inj_on_def)
  qed
  have nrm: "normal_bucket cs' = normal_bucket cs"
    unfolding normal_bucket_sort_key[OF dn(1)] normal_bucket_sort_key[OF dn(2)]
  proof (rule sort_key_filter_perm[OF m])
    fix c :: clip assume c: "priority c = ''normal''"
    show "filter (\<lambda>d. priority d = ''normal'' \<and> time_of d = time_of c) cs' =
       filter (\<lambda>d. priority d = ''normal'' \<and> time_of d = time_of c) cs"
      using key[of "''normal''" c "\<lambda>x. x"] c by (simp add: inj_on_def)
  qed
  have fil: "filler_bucket cs' = filler_bucket cs"
  proof (cases "\<exists>x\<in>set cs. priority x = ''filler''")
    case True
    then obtain x where x: "x \<in> set cs" "priority x = ''filler''" by blast
    then have "ties x = (\<lambda>d. priority d = ''filler'')"
      by (auto simp: ties_def fun_eq_iff)
    with t[of x] show ?thesis by (simp add: filler_bucket_def)
  next
    case False
    then have "filler_bucket zs = []" if "set zs = set cs" for zs
      using that by (auto simp: filler_bucket_def filter_empty_conv)
    from this[OF s] this[OF refl] show ?thesis by simp
  qed
  show ?thesis
    by (simp add: getOrderedClips_buckets pin brk nrm fil)
qed

subsection \<open>A clip with an unrecognized priority\<close>

lemma unknown_priority_buckets:
  assumes "priority c \<noteq> ''pinned''" "priority c \<noteq> ''breaking''"
    "priority c \<noteq> ''normal''" "priority c \<noteq> ''filler''"
  shows "pinned_bucket (xs @ c # ys) = pinned_bucket (xs @ ys)"
    and "breaking_bucket (xs @ c # ys) = breaking_bucket (xs @ ys)"
    and "normal_bucket (xs @ c # ys) = normal_bucket (xs @ ys)"
    and "filler_bucket (xs @ c # ys) = filler_bucket (xs @ ys)"
  using assms
  by (simp_all add: pinned_bucket_def breaking_bucket_def normal_bucket_def filler_bucket_def)

text \<open>
  Claim C1, as amended. The filler bucket is \<^verbatim>\<open>clips.filter(c => c.priority === 'filler')\<close>,
  not "every other clip": a clip whose priority is none of \<^verbatim>\<open>pinned\<close>,
  \<^verbatim>\<open>breaking\<close>, \<^verbatim>\<open>normal\<close>, \<^verbatim>\<open>filler\<close> is in none of the four buckets and
  hence not in the baseline sequence. The playlist is not rejected for it: the sequence
  is the one the playlist without that clip has.
\<close>

theorem unknown_priority_omitted:
  assumes "priority c \<noteq> ''pinned''" "priority c \<noteq> ''breaking''"
    "priority c \<noteq> ''normal''" "priority c \<noteq> ''filler''"
  shows "c \<notin> set (pinned_bucket cs) \<and> c \<notin> set (breaking_bucket cs) \<and>
         c \<notin> set (normal_bucket cs) \<and> c \<notin> set (filler_bucket cs) \<and>
         c \<notin> set (getOrderedClips pl) \<and>
         getOrderedClips (Some \<lparr>clips = Some (xs @ c # ys), members = m\<rparr>) =
           getOrderedClips (Some \<lparr>clips = Some (xs @ ys), members = m\<rparr>)"
proof -
  have b: "c \<notin> set (pinned_bucket zs) \<and> c \<notin> set (breaking_bucket zs) \<and>
         c \<notin> set (normal_bucket zs) \<and> c \<notin> set (filler_bucket zs)" for zs
    using assms
    by (auto simp: pinned_bucket_def breaking_bucket_def normal_bucket_def filler_bucket_def
        set_js_sort)
  have "c \<notin> set (getOrderedClips pl)"
    using b by (auto simp: getOrderedClips_def split: option.splits)
  moreover have "getOrderedClips (Some \<lparr>clips = Some (xs @ c # ys), members = m\<rparr>) =
           getOrderedClips (Some \<lparr>clips = Some (xs @ ys), members = m\<rparr>)"
    using unknown_priority_buckets[OF assms]
    by (simp add: getOrderedClips_buckets)
  ultimately show ?thesis using b by blast
qed

text \<open>
  The theorem at the playlist \<open>[m, u]\<close>, \<open>m\<close> a filler clip and \<open>u\<close> a clip with
  priority \<^verbatim>\<open>urgent\<close>: the sequence is \<open>[m]\<close>.
\<close>

theorem unknown_priority_omitted_witness:
  "priority urgent_clip \<noteq> ''pinned'' \<and> priority urgent_clip \<noteq> ''breaking'' \<and>
   priority urgent_clip \<noteq> ''normal'' \<and> priority urgent_clip \<noteq> ''filler'' \<and>
   urgent_clip \<notin> set (filler_bucket [mk_clip ''m'' ''filler'' None None, urgent_clip]) \<and>
   getOrderedClips
     (Some \<lparr>clips = Some ([mk_clip ''m'' ''filler'' None None] @ urgent_clip # []), members = []\<rparr>)
     = [mk_clip ''m'' ''filler'' None None]"
  using unknown_priority_omitted[of urgent_clip
      "[mk_clip ''m'' ''filler'' None None, urgent_clip]" None
      "[mk_clip ''m'' ''filler'' None None]" "[]" "[]"]
  by (simp add: urgent_clip_def mk_clip_def getOrderedClips_def
      pinned_bucket_def breaking_bucket_def normal_bucket_def filler_bucket_def js_sort_def)

text \<open>
  Claim C1 as the specification states it fails: the playlist whose only clip has
  priority \<^verbatim>\<open>urgent\<close> has that clip neither in the filler bucket nor in the sequence,
  which is empty.
\<close>

theorem unknown_priority_filler_counterexample:
  "priority urgent_clip = ''urgent'' \<and>
   urgent_clip \<notin> set (filler_bucket [urgent_clip]) \<and>
   urgent_clip \<notin> set (getOrderedClips (Some \<lparr>clips = Some [urgent_clip], members = []\<rparr>)) \<and>
   getOrderedClips (Some \<lparr>clips = Some [urgent_clip], members = []\<rparr>) = []"
  by (simp add: urgent_clip_def mk_clip_def filler_bucket_def getOrderedClips_def
      pinned_bucket_def breaking_bucket_def normal_bucket_def js_sort_def)

subsection \<open>The baseline order\<close>

text \<open>
  Claim C2. For a playlist whose breaking and normal clips have valid dates, the
  sequence is the pinned clips, then the breaking clips, then the normal clips, then the
  filler clips; each of the first three is all the clips of its priority (as a multiset),
  in ascending position, descending \<^verbatim>\<open>addedAt\<close> and ascending \<^verbatim>\<open>addedAt\<close>; the
  filler clips stand as in the input. A permutation of the input under which clips that
  tie keep their relative order gives the same sequence. The playlist \<open>a, b, c, d\<close> of
  the specification gives \<open>b, a, d, c\<close> whenever \<open>T0 < T1\<close>.
\<close>

theorem getOrderedClips_baseline_order:
  assumes "clips pl = Some cs" and "dated cs"
  shows "getOrderedClips (Some pl) =
           pinned_bucket cs @ breaking_bucket cs @ normal_bucket cs @ filler_bucket cs \<and>
         mset (pinned_bucket cs) = filter_mset (\<lambda>c. priority c = ''pinned'') (mset cs) \<and>
         sorted_wrt (\<lambda>x y. position_or_0 x \<le> position_or_0 y) (pinned_bucket cs) \<and>
         mset (breaking_bucket cs) = filter_mset (\<lambda>c. priority c = ''breaking'') (mset cs) \<and>
         sorted_wrt (\<lambda>x y. time_of y \<le> time_of x) (breaking_bucket cs) \<and>
         mset (normal_bucket cs) = filter_mset (\<lambda>c. priority c = ''normal'') (mset cs) \<and>
         sorted_wrt (\<lambda>x y. time_of x \<le> time_of y) (normal_bucket cs) \<and>
         filler_bucket cs = filter (\<lambda>c. priority c = ''filler'') cs \<and>
         (\<forall>cs' m'. mset cs' = mset cs \<and> (\<forall>c. filter (ties c) cs' = filter (ties c) cs) \<longrightarrow>
            getOrderedClips (Some \<lparr>clips = Some cs', members = m'\<rparr>) = getOrderedClips (Some pl)) \<and>
         (\<forall>T0 T1. T0 < T1 \<longrightarrow>
            map clip_id (getOrderedClips (Some \<lparr>clips = Some (scenario_playlist T0 T1), members = []\<rparr>))
              = [''b'', ''a'', ''d'', ''c''])"
proof -
  have pl: "pl = \<lparr>clips = Some cs, members = members pl\<rparr>"
    using assms(1) by simp
  have perm: "getOrderedClips (Some \<lparr>clips = Some cs', members = m'\<rparr>) = getOrderedClips (Some pl)"
    if "mset cs' = mset cs" and "\<forall>c. filter (ties c) cs' = filter (ties c) cs" for cs' m'
    using getOrderedClips_perm[OF that(1) assms(2), of m' "members pl"] that(2) pl by simp
  have scen: "map clip_id (getOrderedClips (Some \<lparr>clips = Some (scenario_playlist T0 T1), members = []\<rparr>))
              = [''b'', ''a'', ''d'', ''c'']" if "T0 < T1" for T0 T1 :: int
    using that
    by (simp add: scenario_playlist_def mk_clip_def getOrderedClips_def pinned_bucket_def
        breaking_bucket_def normal_bucket_def filler_bucket_def js_sort_def sortCompare_def
        cmp_pinned_def cmp_normal_def position_or_0_def date_minus_def)
  have db: "dated_in ''breaking'' cs" and dn: "dated_in ''normal'' cs"
    using assms(2) by (simp_all add: dated_def)
  show ?thesis
    using getOrderedClips_buckets[OF assms(1)] pinned_bucket_props(1,2)[of cs]
      breaking_bucket_props(1,2)[OF db] normal_bucket_props(1,2)[OF dn]
      perm scen
    by (simp add: filler_bucket_def)
qed

text \<open>
  The theorem at the specification's playlist with \<open>T0 = 0\<close> and \<open>T1 = 1\<close>, and at
  its permutation \<open>d, c, b, a\<close>: both give \<open>b, a, d, c\<close>.
\<close>

theorem getOrderedClips_baseline_order_witness:
  "clips \<lparr>clips = Some (scenario_playlist 0 1), members = []\<rparr> = Some (scenario_playlist 0 1) \<and>
   dated (scenario_playlist 0 1) \<and>
   map clip_id (getOrderedClips (Some \<lparr>clips = Some (scenario_playlist 0 1), members = []\<rparr>))
     = [''b'', ''a'', ''d'', ''c''] \<and>
   mset (rev (scenario_playlist 0 1)) = mset (scenario_playlist 0 1) \<and>
   map clip_id (getOrderedClips (Some \<lparr>clips = Some (rev (scenario_playlist 0 1)), members = []\<rparr>))
     = [''b'', ''a'', ''d'', ''c'']"
proof -
  let ?cs = "scenario_playlist 0 1"
  let ?pl = "\<lparr>clips = Some ?cs, members = []\<rparr>"
  have c: "clips ?pl = Some ?cs" by simp
  have d: "dated ?cs"
    by (simp add: dated_def dated_in_def scenario_playlist_def mk_clip_def)
  have t: "\<forall>c. filter (ties c) (rev ?cs) = filter (ties c) ?cs"
  proof
    fix c :: clip
    show "filter (ties c) (rev ?cs) = filter (ties c) ?cs"
      by (cases "addedAt c = Some 0")
         (auto simp: ties_def scenario_playlist_def mk_clip_def position_or_0_def)
  qed
  have m: "mset (rev ?cs) = mset ?cs" by simp
  note base = getOrderedClips_baseline_order[OF c d]
  from base have "\<forall>T0 T1 :: int. T0 < T1 \<longrightarrow>
      map clip_id (getOrderedClips (Some \<lparr>clips = Some (scenario_playlist T0 T1), members = []\<rparr>))
        = [''b'', ''a'', ''d'', ''c'']"
    by (elim conjE)
  then have s: "map clip_id (getOrderedClips (Some ?pl)) = [''b'', ''a'', ''d'', ''c'']"
    by simp
  from base m t have "getOrderedClips (Some \<lparr>clips = Some (rev ?cs), members = []\<rparr>) =
      getOrderedClips (Some ?pl)"
    by blast
  with s c d m show ?thesis by simp
qed

section \<open>The engine state\<close>

text \<open>
  Claim C7. Loading a parseable state file gives, for \<^verbatim>\<open>loopCount\<close>,
  \<^verbatim>\<open>clipsPlayed\<close>, \<^verbatim>\<open>errors\<close> and \<^verbatim>\<open>startedAt\<close>, the value the file has, and the
  default only for a member the file lacks. A file that \<^verbatim>\<open>saveState\<close> wrote has every
  member, so loading it over any defaults gives back the state that was saved, and
  \<^verbatim>\<open>main\<close> enters its loop with that state.
\<close>

theorem loadState_resumes:
  "loopCount (loadState (StateJson p) d) = (case s_loopCount p of None \<Rightarrow> loopCount d | Some v \<Rightarrow> v) \<and>
   clipsPlayed (loadState (StateJson p) d) = (case s_clipsPlayed p of None \<Rightarrow> clipsPlayed d | Some v \<Rightarrow> v) \<and>
   errors (loadState (StateJson p) d) = (case s_errors p of None \<Rightarrow> errors d | Some v \<Rightarrow> v) \<and>
   startedAt (loadState (StateJson p) d) = (case s_startedAt p of None \<Rightarrow> startedAt d | Some v \<Rightarrow> v) \<and>
   loadState (state_json (saveState st w)) d = st \<and>
   main 0 e now (saveState st w) = Inr (st, saveState st w)"
  by (simp add: loadState_def spread_def saveState_def stringify_def main_def)

text \<open>
  The theorem at a state saved in February with 7 passes, 23 clips and 4 errors, loaded
  by a process started in November.
\<close>

theorem loadState_resumes_witness:
  "loopCount (loadState (state_json (saveState saved_state (world_at 0 NoFile)))
      (initial_state ''2026-11-02T08:00:00.000Z'')) = 7 \<and>
   clipsPlayed (loadState (state_json (saveState saved_state (world_at 0 NoFile)))
      (initial_state ''2026-11-02T08:00:00.000Z'')) = 23 \<and>
   errors (loadState (state_json (saveState saved_state (world_at 0 NoFile)))
      (initial_state ''2026-11-02T08:00:00.000Z'')) = 4 \<and>
   startedAt (loadState (state_json (saveState saved_state (world_at 0 NoFile)))
      (initial_state ''2026-11-02T08:00:00.000Z'')) = ''2026-02-21T12:00:00.000Z''"
  using loadState_resumes[of "stringify saved_state" "initial_state ''2026-11-02T08:00:00.000Z''"
      saved_state "world_at 0 NoFile" quiet_env "''2026-11-02T08:00:00.000Z''"]
  by (simp add: saved_state_def)

section \<open>A step of the pass\<close>

subsection \<open>What the reload finds\<close>

lemma loadPlaylist_eq:
  "loadPlaylist e w =
     (truthy (producers e (tick w) (playlist_json w)),
      w\<lparr>playlist_json := producers e (tick w) (playlist_json w), tick := tick w + 1\<rparr>)"
  by (simp add: loadPlaylist_def Let_def)

lemma pending_breaking_buckets:
  assumes "clips pl = Some cs"
  shows "pending_breaking (getOrderedClips (Some pl)) = filter (\<lambda>c. \<not> played c) (breaking_bucket cs)"
proof -
  have 1: "pending_breaking (pinned_bucket cs) = []"
    by (auto simp: pending_breaking_def pinned_bucket_def filter_empty_conv set_js_sort)
  have 2: "pending_breaking (normal_bucket cs) = []"
    by (auto simp: pending_breaking_def normal_bucket_def filter_empty_conv set_js_sort)
  have 3: "pending_breaking (filler_bucket cs) = []"
    by (auto simp: pending_breaking_def filler_bucket_def filter_empty_conv)
  have 4: "pending_breaking (breaking_bucket cs) = filter (\<lambda>c. \<not> played c) (breaking_bucket cs)"
    unfolding pending_breaking_def
    by (rule filter_cong) (auto simp: breaking_bucket_def set_js_sort)
  have "pending_breaking (xs @ ys) = pending_breaking xs @ pending_breaking ys" for xs ys
    by (simp add: pending_breaking_def)
  then show ?thesis
    by (simp add: getOrderedClips_buckets[OF assms] 1 2 3 4)
qed

lemma set_pending_breaking:
  assumes "clips pl = Some cs"
  shows "set (pending_breaking (getOrderedClips (Some pl))) =
         {c \<in> set cs. priority c = ''breaking'' \<and> \<not> played c}"
  by (auto simp: pending_breaking_buckets[OF assms] breaking_bucket_def set_js_sort)

lemma hd_sorted_wrt:
  assumes "sorted_wrt R xs" and "xs \<noteq> []" and "\<And>x. R x x" and "d \<in> set xs"
  shows "R (hd xs) d"
  using assms by (cases xs) auto

lemma hd_pending_latest:
  assumes cs: "clips pl = Some cs" and d: "dated_in ''breaking'' cs"
    and x: "x \<in> set cs" "priority x = ''breaking''" "\<not> played x"
  shows "time_of x \<le> time_of (hd (pending_breaking (getOrderedClips (Some pl))))"
proof -
  let ?pend = "pending_breaking (getOrderedClips (Some pl))"
  have "sorted_wrt (\<lambda>x y. time_of y \<le> time_of x) ?pend"
    unfolding pending_breaking_buckets[OF cs]
    by (rule sorted_wrt_filter) (rule breaking_bucket_props(2)[OF d])
  moreover have "x \<in> set ?pend" using x by (simp add: set_pending_breaking[OF cs])
  moreover from this have "?pend \<noteq> []" by auto
  ultimately show ?thesis
    using hd_sorted_wrt[of "\<lambda>x y. time_of y \<le> time_of x" ?pend x] by simp
qed

lemma select_clip_fresh:
  assumes "producers e (tick w) (playlist_json w) = Parsed fresh"
  shows "select_clip e i p w =
     (let breaking = pending_breaking (getOrderedClips (Some fresh));
          w1 = w\<lparr>playlist_json := Parsed fresh, tick := tick w + 1\<rparr>
      in if breaking \<noteq> [] \<and> 0 < i then (Some ((hd breaking)\<lparr>played := True\<rparr>), p, w1)
         else (if i < length (ordered p) then Some (ordered p ! i) else None, p, w1))"
  using assms by (simp add: select_clip_def loadPlaylist_eq truthy_def Let_def)

lemma deliver_Inr:
  assumes "path clip = Some rel"
  shows "\<exists>st' w' ev.
     deliver e i clip (st, w) = Inr (st', w') \<and> currentClipId st' = Some (clip_id clip) \<and>
     currentIndex st' = int i \<and> clipsPlayed st' = clipsPlayed st + 1 \<and>
     trace w' = trace w @ [ev, Transition] \<and>
     (ev = NotFound (join e (queueDir e) rel) \<or> (\<exists>code. ev = Streamed (join e (queueDir e) rel) code)) \<and>
     playlist_json w' = playlist_json w \<and> tick w' = tick w + 1"
  using assms
  by (simp add: deliver_def playClip_def saveState_def playTransition_def Let_def)

subsection \<open>Breaking clips take the step\<close>

text \<open>
  Claim C3. Let the reload of step \<open>i\<close> find a playlist with clips \<open>cs\<close>. If
  \<open>i > 0\<close> and some breaking clip of \<open>cs\<close> has no mark, the step's clip is such a clip
  \<open>b\<close> of \<open>cs\<close>, not a clip of the plan; when the breaking clips have valid dates,
  no breaking clip without a mark was added later than \<open>b\<close>; and the step plays
  the file of \<open>b\<close> and records its id. If \<open>i = 0\<close>, the step's clip is the first clip
  of the plan, whatever breaking clips the reload found.
\<close>

theorem breaking_clip_preempts:
  assumes load: "producers e (tick w) (playlist_json w) = Parsed fresh"
    and cs: "clips fresh = Some cs"
  shows "(0 < i \<and> (\<exists>c\<in>set cs. priority c = ''breaking'' \<and> \<not> played c) \<longrightarrow>
           (\<exists>b w1. select_clip e i p w = (Some (b\<lparr>played := True\<rparr>), p, w1) \<and>
              b \<in> set cs \<and> priority b = ''breaking'' \<and> \<not> played b \<and>
              (dated_in ''breaking'' cs \<longrightarrow>
                 (\<forall>d\<in>set cs. priority d = ''breaking'' \<and> \<not> played d \<longrightarrow> time_of d \<le> time_of b)) \<and>
              (\<forall>st rel. path b = Some rel \<longrightarrow>
                 (\<exists>st' w' ev. play_step e i (st, p, w) = Inr (st', p, w') \<and>
                    currentClipId st' = Some (clip_id b) \<and>
                    trace w' = trace w @ [ev, Transition] \<and>
                    (ev = NotFound (join e (queueDir e) rel) \<or>
                     (\<exists>code. ev = Streamed (join e (queueDir e) rel) code)))))) \<and>
         (i = 0 \<and> ordered p \<noteq> [] \<longrightarrow>
           (\<exists>w1. select_clip e i p w = (Some (ordered p ! 0), p, w1)))"
proof (intro conjI impI)
  assume a: "0 < i \<and> (\<exists>c\<in>set cs. priority c = ''breaking'' \<and> \<not> played c)"
  let ?pend = "pending_breaking (getOrderedClips (Some fresh))"
  let ?w1 = "w\<lparr>playlist_json := Parsed fresh, tick := tick w + 1\<rparr>"
  let ?b = "hd ?pend"
  from a have ne: "?pend \<noteq> []"
  proof -
    from a obtain c where "c \<in> set cs" "priority c = ''breaking''" "\<not> played c" by blast
    then have "c \<in> set ?pend" by (simp add: set_pending_breaking[OF cs])
    then show ?thesis by auto
  qed
  then have "?b \<in> set ?pend" by simp
  then have b: "?b \<in> set cs" "priority ?b = ''breaking''" "\<not> played ?b"
    by (simp_all add: set_pending_breaking[OF cs])
  have sel: "select_clip e i p w = (Some (?b\<lparr>played := True\<rparr>), p, ?w1)"
    using a ne by (simp add: select_clip_fresh[OF load] Let_def)
  have latest: "\<forall>d\<in>set cs. priority d = ''breaking'' \<and> \<not> played d \<longrightarrow> time_of d \<le> time_of ?b"
    if "dated_in ''breaking'' cs"
    using hd_pending_latest[OF cs that] by blast
  have play: "\<exists>st' w' ev. play_step e i (st, p, w) = Inr (st', p, w') \<and>
                    currentClipId st' = Some (clip_id ?b) \<and>
                    trace w' = trace w @ [ev, Transition] \<and>
                    (ev = NotFound (join e (queueDir e) rel) \<or>
                     (\<exists>code. ev = Streamed (join e (queueDir e) rel) code))"
    if "path ?b = Some rel" for st rel
  proof -
    from that have "path (?b\<lparr>played := True\<rparr>) = Some rel" by simp
    from deliver_Inr[OF this, of e i st ?w1]
    obtain st' w' ev where d: "deliver e i (?b\<lparr>played := True\<rparr>) (st, ?w1) = Inr (st', w')"
      "currentClipId st' = Some (clip_id ?b)" "trace w' = trace w @ [ev, Transition]"
      "ev = NotFound (join e (queueDir e) rel) \<or> (\<exists>code. ev = Streamed (join e (queueDir e) rel) code)"
      by auto
    have "play_step e i (st, p, w) = Inr (st', p, w')"
      using d(1) by (simp add: play_step_def sel)
    with d show ?thesis by blast
  qed
  show "\<exists>b w1. select_clip e i p w = (Some (b\<lparr>played := True\<rparr>), p, w1) \<and>
              b \<in> set cs \<and> priority b = ''breaking'' \<and> \<not> played b \<and>
              (dated_in ''breaking'' cs \<longrightarrow>
                 (\<forall>d\<in>set cs. priority d = ''breaking'' \<and> \<not> played d \<longrightarrow> time_of d \<le> time_of b)) \<and>
              (\<forall>st rel. path b = Some rel \<longrightarrow>
                 (\<exists>st' w' ev. play_step e i (st, p, w) = Inr (st', p, w') \<and>
                    currentClipId st' = Some (clip_id b) \<and>
                    trace w' = trace w @ [ev, Transition] \<and>
                    (ev = NotFound (join e (queueDir e) rel) \<or>
                     (\<exists>code. ev = Streamed (join e (queueDir e) rel) code))))"
  proof (intro exI conjI)
    show "select_clip e i p w = (Some (?b\<lparr>played := True\<rparr>), p, ?w1)" by (rule sel)
    show "?b \<in> set cs" "priority ?b = ''breaking''" "\<not> played ?b" by (rule b)+
    show "dated_in ''breaking'' cs \<longrightarrow>
        (\<forall>d\<in>set cs. priority d = ''breaking'' \<and> \<not> played d \<longrightarrow> time_of d \<le> time_of ?b)"
      using latest by blast
    show "\<forall>st rel. path ?b = Some rel \<longrightarrow>
                 (\<exists>st' w' ev. play_step e i (st, p, w) = Inr (st', p, w') \<and>
                    currentClipId st' = Some (clip_id ?b) \<and>
                    trace w' = trace w @ [ev, Transition] \<and>
                    (ev = NotFound (join e (queueDir e) rel) \<or>
                     (\<exists>code. ev = Streamed (join e (queueDir e) rel) code)))"
      using play by blast
  qed
next
  assume "i = 0 \<and> ordered p \<noteq> []"
  then show "\<exists>w1. select_clip e i p w = (Some (ordered p ! 0), p, w1)"
    by (simp add: select_clip_fresh[OF load] Let_def)
qed

text \<open>
  The specification's scenario: the plan is \<open>x, y, z\<close>, and \<open>w\<close> is in the file when
  step 1 reloads it, after an older breaking clip \<open>v\<close>. Step 1 takes \<open>w\<close>, where the
  plan has \<open>y\<close>; step 0 takes \<open>x\<close>.
\<close>

theorem breaking_clip_preempts_witness:
  "producers quiet_env (tick (world_at 3 (store_of (xyz @ [breaking_v, breaking_w]))))
       (playlist_json (world_at 3 (store_of (xyz @ [breaking_v, breaking_w]))))
     = Parsed \<lparr>clips = Some (xyz @ [breaking_v, breaking_w]), members = []\<rparr> \<and>
   priority breaking_w = ''breaking'' \<and> \<not> played breaking_w \<and>
   dated_in ''breaking'' (xyz @ [breaking_v, breaking_w]) \<and>
   fst (select_clip quiet_env 1 xyz_pass (world_at 3 (store_of (xyz @ [breaking_v, breaking_w]))))
     = Some (breaking_w\<lparr>played := True\<rparr>) \<and>
   ordered xyz_pass ! 1 = mk_clip ''y'' ''normal'' None (Some 1) \<and>
   fst (select_clip quiet_env 0 xyz_pass (world_at 1 (store_of (xyz @ [breaking_v, breaking_w]))))
     = Some (mk_clip ''x'' ''normal'' None (Some 0))"
proof -
  let ?cs = "xyz @ [breaking_v, breaking_w]"
  let ?w = "world_at 3 (store_of ?cs)"
  let ?v = "world_at 1 (store_of ?cs)"
  let ?fresh = "\<lparr>clips = Some ?cs, members = []\<rparr>"
  have load: "producers quiet_env (tick ?w) (playlist_json ?w) = Parsed ?fresh"
    by (simp add: scen_defs)
  have load0: "producers quiet_env (tick ?v) (playlist_json ?v) = Parsed ?fresh"
    by (simp add: scen_defs)
  have cs: "clips ?fresh = Some ?cs" by simp
  have d: "dated_in ''breaking'' ?cs" by (simp add: dated_in_def breaking_v_def scen_defs)
  have win: "breaking_w \<in> set ?cs" by simp
  have wp: "priority breaking_w = ''breaking''" "\<not> played breaking_w" "time_of breaking_w = 5"
    by (simp_all add: breaking_w_def mk_clip_def time_of_def)
  from win wp have pend: "\<exists>c\<in>set ?cs. priority c = ''breaking'' \<and> \<not> played c"
    by blast
  from breaking_clip_preempts[OF load cs, of 1 xyz_pass] pend d
  obtain b w1 where b: "select_clip quiet_env 1 xyz_pass ?w = (Some (b\<lparr>played := True\<rparr>), xyz_pass, w1)"
    "b \<in> set ?cs" "priority b = ''breaking''"
    "\<forall>d\<in>set ?cs. priority d = ''breaking'' \<and> \<not> played d \<longrightarrow> time_of d \<le> time_of b"
    by blast
  from b(4) win wp have late: "5 \<le> time_of b" by fastforce
  from b(2) have "b \<in> set xyz \<or> b = breaking_v \<or> b = breaking_w" by auto
  moreover have "\<forall>c\<in>set xyz. priority c \<noteq> ''breaking''"
    by (simp add: xyz_def mk_clip_def)
  moreover have "time_of breaking_v = 3"
    by (simp add: breaking_v_def mk_clip_def time_of_def)
  ultimately have "b = breaking_w" using b(3) late by auto
  with b(1) have 1: "fst (select_clip quiet_env 1 xyz_pass ?w) = Some (breaking_w\<lparr>played := True\<rparr>)"
    by simp
  have o: "ordered xyz_pass \<noteq> []" "ordered xyz_pass ! 0 = mk_clip ''x'' ''normal'' None (Some 0)"
    "ordered xyz_pass ! 1 = mk_clip ''y'' ''normal'' None (Some 1)"
    by (simp_all add: xyz_pass_def xyz_def)
  from breaking_clip_preempts[OF load0 cs, of 0 xyz_pass] o(1)
  obtain w2 where "select_clip quiet_env 0 xyz_pass ?v = (Some (ordered xyz_pass ! 0), xyz_pass, w2)"
    by blast
  then have 2: "fst (select_clip quiet_env 0 xyz_pass ?v) = Some (mk_clip ''x'' ''normal'' None (Some 0))"
    by (simp add: o(2))
  show ?thesis using load d 1 2 wp(1,2) o(3) by (intro conjI)
qed

subsection \<open>A breaking clip is taken again\<close>

lemma played_paths_append: "played_paths (xs @ ys) = played_paths xs @ played_paths ys"
  by (induction xs rule: played_paths.induct) simp_all

lemma first_pending_SomeD:
  assumes "first_pending f = Some b"
  obtains fresh bs where "f = Parsed fresh"
    and "pending_breaking (getOrderedClips (Some fresh)) = b # bs"
  using assms
  by (cases f) (auto simp: first_pending_def truthy_def split: list.splits)

lemma play_step_first_pending:
  assumes keep: "\<forall>t f. first_pending f = Some b \<longrightarrow> first_pending (producers e t f) = Some b"
    and fp: "first_pending (playlist_json w) = Some b"
    and rel: "path b = Some rel" and i: "0 < i"
  shows "\<exists>st' w'. play_step e i (st, p, w) = Inr (st', p, w') \<and>
           played_paths (trace w') = played_paths (trace w) @ [join e (queueDir e) rel] \<and>
           currentClipId st' = Some (clip_id b) \<and>
           first_pending (playlist_json w') = Some b"
proof -
  let ?f = "producers e (tick w) (playlist_json w)"
  from keep fp have fp': "first_pending ?f = Some b" by blast
  then obtain fresh bs where f: "?f = Parsed fresh"
    and pend: "pending_breaking (getOrderedClips (Some fresh)) = b # bs"
    by (rule first_pending_SomeD)
  let ?w1 = "w\<lparr>playlist_json := Parsed fresh, tick := tick w + 1\<rparr>"
  have sel: "select_clip e i p w = (Some (b\<lparr>played := True\<rparr>), p, ?w1)"
    using i pend by (simp add: select_clip_fresh[OF f] Let_def)
  have "path (b\<lparr>played := True\<rparr>) = Some rel" using rel by simp
  from deliver_Inr[OF this, of e i st ?w1]
  obtain st' w' ev where d: "deliver e i (b\<lparr>played := True\<rparr>) (st, ?w1) = Inr (st', w')"
    "currentClipId st' = Some (clip_id b)" "trace w' = trace w @ [ev, Transition]"
    "ev = NotFound (join e (queueDir e) rel) \<or> (\<exists>code. ev = Streamed (join e (queueDir e) rel) code)"
    "playlist_json w' = Parsed fresh"
    by auto
  have step: "play_step e i (st, p, w) = Inr (st', p, w')"
    using d(1) by (simp add: play_step_def sel)
  have "played_paths [ev, Transition] = [join e (queueDir e) rel]"
    using d(4) by auto
  then have "played_paths (trace w') = played_paths (trace w) @ [join e (queueDir e) rel]"
    by (simp add: d(3) played_paths_append)
  moreover have "first_pending (playlist_json w') = Some b"
    using fp' by (simp add: d(5) f)
  ultimately show ?thesis using step d(2) by blast
qed

lemma play_pass_first_pending:
  assumes keep: "\<forall>t f. first_pending f = Some b \<longrightarrow> first_pending (producers e t f) = Some b"
    and rel: "path b = Some rel"
  shows "0 < i \<Longrightarrow> first_pending (playlist_json w) = Some b \<Longrightarrow> n = length (ordered p) - i \<Longrightarrow>
         \<exists>st' w'. play_pass e i (st, p, w) = Inr (st', p, w') \<and>
           played_paths (trace w') =
             played_paths (trace w) @ replicate n (join e (queueDir e) rel) \<and>
           first_pending (playlist_json w') = Some b"
proof (induction n arbitrary: i st w)
  case 0
  then have "\<not> i < length (ordered p)" by simp
  then have "play_pass e i (st, p, w) = Inr (st, p, w)"
    by (subst play_pass.simps) simp
  with 0 show ?case by simp
next
  case (Suc n)
  then have lt: "i < length (ordered p)" by simp
  from play_step_first_pending[OF keep Suc.prems(2) rel Suc.prems(1), of st p]
  obtain st1 w1 where s: "play_step e i (st, p, w) = Inr (st1, p, w1)"
    "played_paths (trace w1) = played_paths (trace w) @ [join e (queueDir e) rel]"
    "first_pending (playlist_json w1) = Some b"
    by blast
  have "n = length (ordered p) - (i + 1)" using Suc.prems(3) by simp
  from Suc.IH[OF _ s(3) this, of st1]
  obtain st' w' where r: "play_pass e (i + 1) (st1, p, w1) = Inr (st', p, w')"
    "played_paths (trace w') = played_paths (trace w1) @ replicate n (join e (queueDir e) rel)"
    "first_pending (playlist_json w') = Some b"
    by auto
  have "play_pass e i (st, p, w) = play_pass e (i + 1) (st1, p, w1)"
    using lt s(1) by (subst play_pass.simps) simp
  with r s(2) show ?case
    by simp
qed


lemma first_pending_pruned:
  "first_pending (Parsed (pl\<lparr>clips := Some (filter (\<lambda>c. priority c \<noteq> ''breaking'') cs)\<rparr>)) = None"
proof -
  let ?pl = "pl\<lparr>clips := Some (filter (\<lambda>c. priority c \<noteq> ''breaking'') cs)\<rparr>"
  have "clips ?pl = Some (filter (\<lambda>c. priority c \<noteq> ''breaking'') cs)" by simp
  from set_pending_breaking[OF this]
  have "set (pending_breaking (getOrderedClips (Some ?pl))) = {}" by auto
  then show ?thesis by (simp add: first_pending_def truthy_def)
qed

text \<open>
  Claim C4. Let \<open>b\<close> be the clip that a step substitutes for the file as it is, and
  let the other processes leave it so (they may change the file, as long as \<open>b\<close>
  stays the first breaking clip without a mark). Then every step from \<open>i > 0\<close> to the end
  of the pass plays the file of \<open>b\<close>: the mark a step sets is on the value it loaded, the
  pass's own playlist and plan are unchanged, and \<open>b\<close> is still the file's first
  pending clip when the pass ends. The prune that follows leaves no pending breaking
  clip in the file.
\<close>

theorem breaking_clip_repeats_until_pruned:
  assumes keep: "\<forall>t f. first_pending f = Some b \<longrightarrow> first_pending (producers e t f) = Some b"
    and fp: "first_pending (playlist_json w) = Some b"
    and rel: "path b = Some rel" and i: "0 < i"
  shows "\<exists>st' w'. play_pass e i (st, p, w) = Inr (st', p, w') \<and>
           played_paths (trace w') =
             played_paths (trace w) @ replicate (length (ordered p) - i) (join e (queueDir e) rel) \<and>
           first_pending (playlist_json w') = Some b \<and>
           (\<exists>st'' w''. pass_complete e (st', w') = Inr (st'', w'') \<and>
              first_pending (playlist_json w'') = None)"
proof -
  from play_pass_first_pending[OF keep rel i fp refl, of st p]
  obtain st' w' where r: "play_pass e i (st, p, w) = Inr (st', p, w')"
    "played_paths (trace w') =
       played_paths (trace w) @ replicate (length (ordered p) - i) (join e (queueDir e) rel)"
    "first_pending (playlist_json w') = Some b"
    by blast
  let ?f = "producers e (tick w') (playlist_json w')"
  from keep r(3) have "first_pending ?f = Some b" by blast
  then obtain fresh bs where f: "?f = Parsed fresh"
    and pend: "pending_breaking (getOrderedClips (Some fresh)) = b # bs"
    by (rule first_pending_SomeD)
  from pend obtain cs where cs: "clips fresh = Some cs"
    by (cases "clips fresh") (auto simp: getOrderedClips_def pending_breaking_def)
  have "\<exists>st'' w''. pass_complete e (st', w') = Inr (st'', w'') \<and>
              first_pending (playlist_json w'') = None"
    using f cs
    by (simp add: pass_complete_def prune_def loadPlaylist_eq truthy_def saveState_def
        writePlaylist_def Let_def first_pending_pruned)
  with r show ?thesis by blast
qed


text \<open>
  The theorem at the plan \<open>x, y, z\<close> with \<open>w\<close> in the file: steps 1 and 2 both play
  the file of \<open>w\<close>.
\<close>

theorem breaking_clip_repeats_until_pruned_witness:
  "first_pending (playlist_json (world_at 3 (store_of (xyz @ [breaking_w])))) = Some breaking_w \<and>
   path breaking_w = Some ''w.mp4'' \<and>
   (\<exists>st' w'. play_pass quiet_env 1
        (initial_state ''t'', xyz_pass, world_at 3 (store_of (xyz @ [breaking_w])))
        = Inr (st', xyz_pass, w') \<and>
      played_paths (trace w') = [''queue/w.mp4'', ''queue/w.mp4''] \<and>
      first_pending (playlist_json w') = Some breaking_w)"
proof -
  let ?w = "world_at 3 (store_of (xyz @ [breaking_w]))"
  have keep: "\<forall>t f. first_pending f = Some breaking_w \<longrightarrow>
      first_pending (producers quiet_env t f) = Some breaking_w"
    by (simp add: scen_defs)
  have fp: "first_pending (playlist_json ?w) = Some breaking_w"
    by (simp add: first_pending_def truthy_def scen_defs order_defs)
  have rel: "path breaking_w = Some ''w.mp4''"
    by (simp add: scen_defs)
  from breaking_clip_repeats_until_pruned[OF keep fp rel, of 1 "initial_state ''t''" xyz_pass]
  obtain st' w' where r: "play_pass quiet_env 1 (initial_state ''t'', xyz_pass, ?w) = Inr (st', xyz_pass, w')"
    "played_paths (trace w') = played_paths (trace ?w) @
       replicate (length (ordered xyz_pass) - 1) (join quiet_env (queueDir quiet_env) ''w.mp4'')"
    "first_pending (playlist_json w') = Some breaking_w"
    by auto
  from r(2) have "played_paths (trace w') = [''queue/w.mp4'', ''queue/w.mp4'']"
    by (simp add: scen_defs numeral_2_eq_2)
  with r(1,3) fp rel show ?thesis by blast
qed

subsection \<open>A reload that fails\<close>

lemma waited_append: "waited (xs @ ys) = waited xs @ waited ys"
  by (induction xs rule: waited.induct) simp_all

lemma clip_id_mark_played: "map clip_id (mark_played c xs) = map clip_id xs"
  by (induction xs) simp_all

lemma clip_file_mark_played: "map (clip_file e) (mark_played c xs) = map (clip_file e) xs"
  by (induction xs) (simp_all add: clip_file_def)

lemma path_mark_played: "map path (mark_played c xs) = map path xs"
  by (induction xs) simp_all

lemma select_clip_fallback:
  assumes "truthy (producers e (tick w) (playlist_json w)) = None"
  shows "select_clip e i p w =
     (let breaking = pending_breaking (getOrderedClips (Some (snapshot p)));
          w1 = w\<lparr>playlist_json := producers e (tick w) (playlist_json w), tick := tick w + 1\<rparr>
      in if breaking \<noteq> [] \<and> 0 < i
         then (Some ((hd breaking)\<lparr>played := True\<rparr>), mark_in_pass (hd breaking) p, w1)
         else (if i < length (ordered p) then Some (ordered p ! i) else None, p, w1))"
  using assms by (simp add: select_clip_def loadPlaylist_eq Let_def)

text \<open>Marking commutes with the sort and with the filter by priority.\<close>

lemma sortCompare_breaking_mark:
  "sortCompare cmp_breaking (a\<lparr>played := u\<rparr>) b = sortCompare cmp_breaking a b"
  "sortCompare cmp_breaking a (b\<lparr>played := u\<rparr>) = sortCompare cmp_breaking a b"
  "sortCompare cmp_breaking a a \<le> 0"
  by (simp_all add: sortCompare_def cmp_breaking_def date_minus_def split: option.splits)

lemma js_insert_mark_other:
  "x \<noteq> b \<Longrightarrow>
   js_insert cmp_breaking x (mark_played b ys) = mark_played b (js_insert cmp_breaking x ys)"
  by (induction ys) (auto simp: sortCompare_breaking_mark)

lemma js_insert_mark_same:
  "mark_played b (js_insert cmp_breaking b ys) = js_insert cmp_breaking (b\<lparr>played := True\<rparr>) ys"
proof (induction ys)
  case Nil
  show ?case by simp
next
  case (Cons y ys)
  show ?case
  proof (cases "sortCompare cmp_breaking b y \<le> 0")
    case True
    then show ?thesis by (simp add: sortCompare_breaking_mark)
  next
    case False
    then have "y \<noteq> b" using sortCompare_breaking_mark(3)[of b] by auto
    with False Cons show ?thesis by (simp add: sortCompare_breaking_mark)
  qed
qed

lemma js_sort_mark:
  "js_sort cmp_breaking (mark_played b xs) = mark_played b (js_sort cmp_breaking xs)"
proof (induction xs)
  case Nil
  show ?case by (simp add: js_sort_def)
next
  case (Cons x xs)
  then have ih: "js_sort cmp_breaking (mark_played b xs) = mark_played b (js_sort cmp_breaking xs)" .
  show ?case
  proof (cases "x = b")
    case True
    then show ?thesis
      using js_insert_mark_same[of b "js_sort cmp_breaking xs"] by (simp add: js_sort_def)
  next
    case False
    then show ?thesis
      using ih js_insert_mark_other[OF False, of "js_sort cmp_breaking xs"]
      by (simp add: js_sort_def)
  qed
qed

lemma filter_priority_mark:
  "priority b = pr \<Longrightarrow>
   filter (\<lambda>c. priority c = pr) (mark_played b xs) = mark_played b (filter (\<lambda>c. priority c = pr) xs)"
  by (induction xs) auto

lemma breaking_bucket_mark:
  "priority b = ''breaking'' \<Longrightarrow>
   breaking_bucket (mark_played b cs) = mark_played b (breaking_bucket cs)"
  by (simp add: breaking_bucket_def filter_priority_mark js_sort_mark)

lemma unplayed_mark:
  "\<not> played b \<Longrightarrow> filter (\<lambda>c. \<not> played c) ys = b # bs \<Longrightarrow>
   filter (\<lambda>c. \<not> played c) (mark_played b ys) = bs"
proof (induction ys)
  case Nil
  then show ?case by simp
next
  case (Cons y ys)
  show ?case
  proof (cases "played y")
    case True
    with Cons.prems have "y \<noteq> b" by auto
    with True Cons show ?thesis by simp
  next
    case False
    with Cons.prems have "y = b" "filter (\<lambda>c. \<not> played c) ys = bs" by simp_all
    then show ?thesis by simp
  qed
qed

lemma pending_after_mark:
  assumes cs: "clips pl = Some cs"
    and pend: "pending_breaking (getOrderedClips (Some pl)) = b # bs"
  shows "pending_breaking (getOrderedClips (Some (pl\<lparr>clips := Some (mark_played b cs)\<rparr>))) = bs"
proof -
  have "b \<in> set (pending_breaking (getOrderedClips (Some pl)))" using pend by simp
  then have b: "priority b = ''breaking''" "\<not> played b"
    by (simp_all add: set_pending_breaking[OF cs])
  have "clips (pl\<lparr>clips := Some (mark_played b cs)\<rparr>) = Some (mark_played b cs)" by simp
  from pending_breaking_buckets[OF this]
  have "pending_breaking (getOrderedClips (Some (pl\<lparr>clips := Some (mark_played b cs)\<rparr>))) =
        filter (\<lambda>c. \<not> played c) (mark_played b (breaking_bucket cs))"
    by (simp add: breaking_bucket_mark[OF b(1)])
  also have "\<dots> = bs"
    using pend unfolding pending_breaking_buckets[OF cs] by (rule unplayed_mark[OF b(2)])
  finally show ?thesis .
qed

lemma pending_mark_in_pass:
  assumes "pending_breaking (getOrderedClips (Some (snapshot p))) = b # bs"
  shows "pending_breaking (getOrderedClips (Some (snapshot (mark_in_pass b p)))) = bs"
proof -
  from assms obtain cs where cs: "clips (snapshot p) = Some cs"
    by (cases "clips (snapshot p)") (auto simp: getOrderedClips_def pending_breaking_def)
  have "snapshot (mark_in_pass b p) = (snapshot p)\<lparr>clips := Some (mark_played b cs)\<rparr>"
    by (simp add: mark_in_pass_def cs)
  with pending_after_mark[OF cs assms] show ?thesis by simp
qed


lemma fallback_step:
  assumes fail: "truthy (producers e (tick w) (playlist_json w)) = None"
    and i: "i < length (ordered p)"
    and sel: "c = (if pending_breaking (getOrderedClips (Some (snapshot p))) \<noteq> [] \<and> 0 < i
                   then hd (pending_breaking (getOrderedClips (Some (snapshot p))))
                   else ordered p ! i)"
    and p1: "p1 = (if pending_breaking (getOrderedClips (Some (snapshot p))) \<noteq> [] \<and> 0 < i
                   then mark_in_pass (hd (pending_breaking (getOrderedClips (Some (snapshot p))))) p
                   else p)"
    and rel: "path c = Some rel"
  shows "\<exists>st' w' ev. play_step e i (st, p, w) = Inr (st', p1, w') \<and>
           clipsPlayed st' = clipsPlayed st + 1 \<and>
           currentClipId st' = Some (clip_id c) \<and>
           trace w' = trace w @ [ev, Transition] \<and>
           (ev = NotFound (clip_file e c) \<or> (\<exists>code. ev = Streamed (clip_file e c) code))"
proof -
  let ?pend = "pending_breaking (getOrderedClips (Some (snapshot p)))"
  let ?v = "w\<lparr>playlist_json := producers e (tick w) (playlist_json w), tick := tick w + 1\<rparr>"
  define c' where "c' = (if ?pend \<noteq> [] \<and> 0 < i then c\<lparr>played := True\<rparr> else c)"
  have s: "select_clip e i p w = (Some c', p1, ?v)"
    using i by (simp add: select_clip_fallback[OF fail] Let_def c'_def sel p1)
  have "path c' = Some rel" using rel by (simp add: c'_def)
  from deliver_Inr[OF this, of e i st ?v]
  obtain st' w' ev where d: "deliver e i c' (st, ?v) = Inr (st', w')"
    "clipsPlayed st' = clipsPlayed st + 1" "currentClipId st' = Some (clip_id c')"
    "trace w' = trace w @ [ev, Transition]"
    "ev = NotFound (join e (queueDir e) rel) \<or> (\<exists>code. ev = Streamed (join e (queueDir e) rel) code)"
    by auto
  have "play_step e i (st, p, w) = Inr (st', p1, w')"
    using d(1) by (simp add: play_step_def s)
  moreover have "clip_file e c = join e (queueDir e) rel"
    using rel by (simp add: clip_file_def)
  moreover have "clip_id c' = clip_id c" by (simp add: c'_def)
  ultimately show ?thesis using d(2-5) by auto
qed

lemma play_pass_fallback:
  assumes gone: "\<forall>t f. truthy (producers e t f) = None"
  shows "k = length (ordered p) - i \<Longrightarrow>
         \<forall>c\<in>set (ordered p). path c \<noteq> None \<Longrightarrow>
         \<forall>c\<in>set (pending_breaking (getOrderedClips (Some (snapshot p)))). path c \<noteq> None \<Longrightarrow>
         \<exists>st' p' w'. play_pass e i (st, p, w) = Inr (st', p', w') \<and>
           played_paths (trace w') =
             played_paths (trace w) @
             fallback_order i k
               (map (clip_file e) (pending_breaking (getOrderedClips (Some (snapshot p)))))
               (map (clip_file e) (ordered p)) \<and>
           waited (trace w') = waited (trace w) \<and>
           clipsPlayed st' = clipsPlayed st + int k \<and>
           map clip_id (ordered p') = map clip_id (ordered p)"
proof (induction k arbitrary: i st p w)
  case 0
  then have "\<not> i < length (ordered p)" by simp
  then have "play_pass e i (st, p, w) = Inr (st, p, w)"
    by (subst play_pass.simps) simp
  then show ?case by simp
next
  case (Suc k)
  let ?pend = "pending_breaking (getOrderedClips (Some (snapshot p)))"
  let ?cf = "clip_file e"
  from Suc.prems(1) have lt: "i < length (ordered p)" by simp
  from gone have fail: "truthy (producers e (tick w) (playlist_json w)) = None" by blast
  define c where "c = (if ?pend \<noteq> [] \<and> 0 < i then hd ?pend else ordered p ! i)"
  define p1 where "p1 = (if ?pend \<noteq> [] \<and> 0 < i then mark_in_pass (hd ?pend) p else p)"
  have "path c \<noteq> None"
    using Suc.prems(2,3) lt by (auto simp: c_def)
  then obtain rel where rel: "path c = Some rel" by auto
  from fallback_step[OF fail lt c_def p1_def rel, of st]
  obtain st1 w1 ev where s: "play_step e i (st, p, w) = Inr (st1, p1, w1)"
    "clipsPlayed st1 = clipsPlayed st + 1"
    "trace w1 = trace w @ [ev, Transition]"
    "ev = NotFound (?cf c) \<or> (\<exists>code. ev = Streamed (?cf c) code)"
    by blast
  have pp: "played_paths (trace w1) = played_paths (trace w) @ [?cf c]"
    using s(3,4) by (auto simp: played_paths_append)
  have wt: "waited (trace w1) = waited (trace w)"
    using s(3,4) by (auto simp: waited_append)
  have len: "length (ordered p1) = length (ordered p)"
    by (simp add: p1_def mark_in_pass_def length_mark_played)
  have files: "map ?cf (ordered p1) = map ?cf (ordered p)"
    by (simp add: p1_def mark_in_pass_def clip_file_mark_played)
  have ids: "map clip_id (ordered p1) = map clip_id (ordered p)"
    by (simp add: p1_def mark_in_pass_def clip_id_mark_played)
  have "map path (ordered p1) = map path (ordered p)"
    by (simp add: p1_def mark_in_pass_def path_mark_played)
  then have "set (map path (ordered p1)) = set (map path (ordered p))" by simp
  with Suc.prems(2) have paths1: "\<forall>c\<in>set (ordered p1). path c \<noteq> None"
    by (auto simp: image_iff) (metis (no_types, lifting) image_iff list.set_map)
  have pend1: "pending_breaking (getOrderedClips (Some (snapshot p1))) =
      (if ?pend \<noteq> [] \<and> 0 < i then tl ?pend else ?pend)"
  proof (cases "?pend \<noteq> [] \<and> 0 < i")
    case True
    then obtain b bs where bbs: "?pend = b # bs" by (cases ?pend) auto
    from pending_mark_in_pass[OF this] True bbs show ?thesis by (simp add: p1_def)
  next
    case False
    then show ?thesis by (auto simp: p1_def)
  qed
  have ppaths1: "\<forall>c\<in>set (pending_breaking (getOrderedClips (Some (snapshot p1)))). path c \<noteq> None"
    using Suc.prems(3) unfolding pend1 by (auto dest: list.set_sel(2))
  have k: "k = length (ordered p1) - (i + 1)" using Suc.prems(1) len by simp
  from Suc.IH[OF k paths1 ppaths1, of st1 w1]
  obtain st' p' w' where r: "play_pass e (i + 1) (st1, p1, w1) = Inr (st', p', w')"
    "played_paths (trace w') = played_paths (trace w1) @
       fallback_order (i + 1) k
         (map ?cf (pending_breaking (getOrderedClips (Some (snapshot p1))))) (map ?cf (ordered p1))"
    "waited (trace w') = waited (trace w1)"
    "clipsPlayed st' = clipsPlayed st1 + int k"
    "map clip_id (ordered p') = map clip_id (ordered p1)"
    by blast
  have pass: "play_pass e i (st, p, w) = Inr (st', p', w')"
    using lt s(1) r(1) by (subst play_pass.simps) simp
  have ord: "fallback_order i (Suc k) (map ?cf ?pend) (map ?cf (ordered p)) =
      ?cf c # fallback_order (i + 1) k
         (map ?cf (pending_breaking (getOrderedClips (Some (snapshot p1))))) (map ?cf (ordered p1))"
    using lt by (auto simp: pend1 files c_def hd_map map_tl)
  show ?case
    using pass r(2-5) pp wt s(2) ids ord by (intro exI[of _ st'] exI[of _ p'] exI[of _ w']) simp
qed

text \<open>
  Claim C9, as amended. Let the reload of step \<open>i\<close> return nothing, with \<open>i\<close> inside
  the plan. The step does not wait and has a clip, found in the pass's own playlist and
  plan: it is the clip the step would take had the reload returned the pass's own
  playlist. When that playlist has no breaking clip without a mark, or \<open>i = 0\<close>, the clip
  is clip \<open>i\<close> of the plan and the pass is unchanged. When \<open>i > 0\<close> and it has one, the
  clip is the first such breaking clip, whatever clip \<open>i\<close> of the plan is; the clip is
  marked in the pass's own playlist, where it is then no longer pending. When the clip has a
  path the step plays it, counts it and ends normally. When every reload of the pass
  fails and the clips have paths, the pass runs to its end without a wait, one clip a
  step: the steps above 0 play the pending breaking clips of the pass's own playlist, one
  each and in order, and the steps after them, and step 0, play their own clip of the
  plan.
\<close>

theorem reload_failure_falls_back:
  assumes fail: "truthy (producers e (tick w) (playlist_json w)) = None"
    and i: "i < length (ordered p)"
  shows "\<exists>c p1 w1.
     select_clip e i p w = (Some c, p1, w1) \<and> trace w1 = trace w \<and>
     (pending_breaking (getOrderedClips (Some (snapshot p))) = [] \<or> i = 0 \<longrightarrow>
        c = ordered p ! i \<and> p1 = p) \<and>
     (\<forall>b bs. pending_breaking (getOrderedClips (Some (snapshot p))) = b # bs \<and> 0 < i \<longrightarrow>
        c = b\<lparr>played := True\<rparr> \<and> p1 = mark_in_pass b p \<and>
        pending_breaking (getOrderedClips (Some (snapshot p1))) = bs) \<and>
     (\<forall>e' w'. producers e' (tick w') (playlist_json w') = Parsed (snapshot p) \<longrightarrow>
        fst (select_clip e' i p w') = Some c) \<and>
     (\<forall>st rel. path c = Some rel \<longrightarrow>
        (\<exists>st' w' ev. play_step e i (st, p, w) = Inr (st', p1, w') \<and>
           clipsPlayed st' = clipsPlayed st + 1 \<and>
           trace w' = trace w @ [ev, Transition] \<and>
           (ev = NotFound (join e (queueDir e) rel) \<or>
            (\<exists>code. ev = Streamed (join e (queueDir e) rel) code)) \<and>
           play_pass e i (st, p, w) = play_pass e (i + 1) (st', p1, w'))) \<and>
     ((\<forall>t f. truthy (producers e t f) = None) \<and>
      (\<forall>c\<in>set (ordered p). path c \<noteq> None) \<and>
      (\<forall>c\<in>set (pending_breaking (getOrderedClips (Some (snapshot p)))). path c \<noteq> None) \<longrightarrow>
        (\<forall>st. \<exists>st' p' w'.
           play_pass e i (st, p, w) = Inr (st', p', w') \<and>
           played_paths (trace w') =
             played_paths (trace w) @
             fallback_order i (length (ordered p) - i)
               (map (clip_file e) (pending_breaking (getOrderedClips (Some (snapshot p)))))
               (map (clip_file e) (ordered p)) \<and>
           waited (trace w') = waited (trace w) \<and>
           clipsPlayed st' = clipsPlayed st + int (length (ordered p) - i) \<and>
           map clip_id (ordered p') = map clip_id (ordered p)))"
proof -
  let ?pend = "pending_breaking (getOrderedClips (Some (snapshot p)))"
  let ?v = "w\<lparr>playlist_json := producers e (tick w) (playlist_json w), tick := tick w + 1\<rparr>"
  define c0 where "c0 = (if ?pend \<noteq> [] \<and> 0 < i then hd ?pend else ordered p ! i)"
  define c where "c = (if ?pend \<noteq> [] \<and> 0 < i then c0\<lparr>played := True\<rparr> else c0)"
  define p1 where "p1 = (if ?pend \<noteq> [] \<and> 0 < i then mark_in_pass (hd ?pend) p else p)"
  have sel: "select_clip e i p w = (Some c, p1, ?v)"
    using i by (simp add: select_clip_fallback[OF fail] Let_def c_def c0_def p1_def)
  have plain: "?pend = [] \<or> i = 0 \<longrightarrow> c = ordered p ! i \<and> p1 = p"
    by (auto simp: c_def c0_def p1_def)
  have brk: "\<forall>b bs. ?pend = b # bs \<and> 0 < i \<longrightarrow>
      c = b\<lparr>played := True\<rparr> \<and> p1 = mark_in_pass b p \<and>
      pending_breaking (getOrderedClips (Some (snapshot p1))) = bs"
  proof (intro allI impI)
    fix b bs assume a: "?pend = b # bs \<and> 0 < i"
    then have "c = b\<lparr>played := True\<rparr>" "p1 = mark_in_pass b p"
      by (simp_all add: c_def c0_def p1_def)
    moreover from a have "pending_breaking (getOrderedClips (Some (snapshot (mark_in_pass b p)))) = bs"
      by (intro pending_mark_in_pass) simp
    ultimately show "c = b\<lparr>played := True\<rparr> \<and> p1 = mark_in_pass b p \<and>
      pending_breaking (getOrderedClips (Some (snapshot p1))) = bs"
      by simp
  qed
  have same: "\<forall>e' w'. producers e' (tick w') (playlist_json w') = Parsed (snapshot p) \<longrightarrow>
        fst (select_clip e' i p w') = Some c"
  proof (intro allI impI)
    fix e' :: env and w' :: world
    assume "producers e' (tick w') (playlist_json w') = Parsed (snapshot p)"
    from select_clip_fresh[OF this] i show "fst (select_clip e' i p w') = Some c"
      by (auto simp: Let_def c_def c0_def)
  qed
  have play: "\<forall>st rel. path c = Some rel \<longrightarrow>
        (\<exists>st' w' ev. play_step e i (st, p, w) = Inr (st', p1, w') \<and>
           clipsPlayed st' = clipsPlayed st + 1 \<and>
           trace w' = trace w @ [ev, Transition] \<and>
           (ev = NotFound (join e (queueDir e) rel) \<or>
            (\<exists>code. ev = Streamed (join e (queueDir e) rel) code)) \<and>
           play_pass e i (st, p, w) = play_pass e (i + 1) (st', p1, w'))"
  proof (intro allI impI)
    fix st rel assume rel: "path c = Some rel"
    then have rel0: "path c0 = Some rel" by (auto simp: c_def split: if_splits)
    from fallback_step[OF fail i c0_def p1_def rel0, of st]
    obtain st' w' ev where s: "play_step e i (st, p, w) = Inr (st', p1, w')"
      "clipsPlayed st' = clipsPlayed st + 1" "trace w' = trace w @ [ev, Transition]"
      "ev = NotFound (clip_file e c0) \<or> (\<exists>code. ev = Streamed (clip_file e c0) code)"
      by blast
    have "clip_file e c0 = join e (queueDir e) rel"
      using rel0 by (simp add: clip_file_def)
    moreover have "play_pass e i (st, p, w) = play_pass e (i + 1) (st', p1, w')"
      using i s(1) by (subst play_pass.simps) simp
    ultimately show "\<exists>st' w' ev. play_step e i (st, p, w) = Inr (st', p1, w') \<and>
           clipsPlayed st' = clipsPlayed st + 1 \<and>
           trace w' = trace w @ [ev, Transition] \<and>
           (ev = NotFound (join e (queueDir e) rel) \<or>
            (\<exists>code. ev = Streamed (join e (queueDir e) rel) code)) \<and>
           play_pass e i (st, p, w) = play_pass e (i + 1) (st', p1, w')"
      using s by auto
  qed
  have rest: "(\<forall>t f. truthy (producers e t f) = None) \<and>
      (\<forall>c\<in>set (ordered p). path c \<noteq> None) \<and>
      (\<forall>c\<in>set ?pend. path c \<noteq> None) \<longrightarrow>
        (\<forall>st. \<exists>st' p' w'.
           play_pass e i (st, p, w) = Inr (st', p', w') \<and>
           played_paths (trace w') =
             played_paths (trace w) @
             fallback_order i (length (ordered p) - i) (map (clip_file e) ?pend)
               (map (clip_file e) (ordered p)) \<and>
           waited (trace w') = waited (trace w) \<and>
           clipsPlayed st' = clipsPlayed st + int (length (ordered p) - i) \<and>
           map clip_id (ordered p') = map clip_id (ordered p))"
  proof (intro impI allI)
    fix st
    assume a: "(\<forall>t f. truthy (producers e t f) = None) \<and>
      (\<forall>c\<in>set (ordered p). path c \<noteq> None) \<and> (\<forall>c\<in>set ?pend. path c \<noteq> None)"
    then have g: "\<forall>t f. truthy (producers e t f) = None"
      and a1: "\<forall>c\<in>set (ordered p). path c \<noteq> None"
      and a2: "\<forall>c\<in>set ?pend. path c \<noteq> None"
      by blast+
    from play_pass_fallback[OF g refl a1 a2, of i st w]
    show "\<exists>st' p' w'.
           play_pass e i (st, p, w) = Inr (st', p', w') \<and>
           played_paths (trace w') =
             played_paths (trace w) @
             fallback_order i (length (ordered p) - i) (map (clip_file e) ?pend)
               (map (clip_file e) (ordered p)) \<and>
           waited (trace w') = waited (trace w) \<and>
           clipsPlayed st' = clipsPlayed st + int (length (ordered p) - i) \<and>
           map clip_id (ordered p') = map clip_id (ordered p)" .
  qed
  show ?thesis
  proof (intro exI conjI)
    show "select_clip e i p w = (Some c, p1, ?v)" by (rule sel)
    show "trace ?v = trace w" by simp
  qed (rule plain brk same play rest)+
qed

text \<open>
  The theorem at the pass \<open>w, x, y\<close> with the file gone, from step 1: step 1 takes
  \<open>w\<close> and marks it, no breaking clip is pending afterwards, and the rest of the pass
  plays \<open>w\<close> and then \<open>y\<close>.
\<close>

theorem reload_failure_falls_back_witness:
  "truthy (producers gone_env (tick (world_at 3 (store_of wxy)))
      (playlist_json (world_at 3 (store_of wxy)))) = None \<and>
   1 < length (ordered wxy_pass) \<and>
   pending_breaking (getOrderedClips (Some (snapshot wxy_pass))) = [breaking_w] \<and>
   select_clip gone_env 1 wxy_pass (world_at 3 (store_of wxy))
     = (Some (breaking_w\<lparr>played := True\<rparr>), mark_in_pass breaking_w wxy_pass, world_at 4 NoFile) \<and>
   pending_breaking (getOrderedClips (Some (snapshot (mark_in_pass breaking_w wxy_pass)))) = [] \<and>
   (\<exists>st' p' w'. play_pass gone_env 1 (initial_state ''t'', wxy_pass, world_at 3 (store_of wxy))
        = Inr (st', p', w') \<and>
      played_paths (trace w') = [''queue/w.mp4'', ''queue/y.mp4''] \<and>
      waited (trace w') = [] \<and> clipsPlayed st' = 2)"
proof -
  let ?e = gone_env
  let ?w = "world_at 3 (store_of wxy)"
  let ?pend = "pending_breaking (getOrderedClips (Some (snapshot wxy_pass)))"
  have fail: "truthy (producers ?e (tick ?w) (playlist_json ?w)) = None"
    by (simp add: gone_env_def truthy_def scen_defs)
  have i: "1 < length (ordered wxy_pass)"
    by (simp add: wxy_pass_def wxy_def)
  have pend: "?pend = [breaking_w]"
    by (simp add: wxy_pass_def wxy_def scen_defs order_defs)
  have gone: "\<forall>t f. truthy (producers ?e t f) = None"
    by (simp add: gone_env_def truthy_def scen_defs)
  have paths: "\<forall>c\<in>set (ordered wxy_pass). path c \<noteq> None" "\<forall>c\<in>set ?pend. path c \<noteq> None"
    unfolding pend by (simp_all add: wxy_pass_def wxy_def scen_defs)
  from reload_failure_falls_back[OF fail i]
  obtain c p1 w1 where r: "select_clip ?e 1 wxy_pass ?w = (Some c, p1, w1)"
    "\<forall>b bs. ?pend = b # bs \<and> 0 < (1::nat) \<longrightarrow>
        c = b\<lparr>played := True\<rparr> \<and> p1 = mark_in_pass b wxy_pass \<and>
        pending_breaking (getOrderedClips (Some (snapshot p1))) = bs"
    "(\<forall>t f. truthy (producers ?e t f) = None) \<and>
      (\<forall>c\<in>set (ordered wxy_pass). path c \<noteq> None) \<and> (\<forall>c\<in>set ?pend. path c \<noteq> None) \<longrightarrow>
        (\<forall>st. \<exists>st' p' w'.
           play_pass ?e 1 (st, wxy_pass, ?w) = Inr (st', p', w') \<and>
           played_paths (trace w') =
             played_paths (trace ?w) @
             fallback_order 1 (length (ordered wxy_pass) - 1) (map (clip_file ?e) ?pend)
               (map (clip_file ?e) (ordered wxy_pass)) \<and>
           waited (trace w') = waited (trace ?w) \<and>
           clipsPlayed st' = clipsPlayed st + int (length (ordered wxy_pass) - 1) \<and>
           map clip_id (ordered p') = map clip_id (ordered wxy_pass))"
    by blast
  have "?pend = breaking_w # [] \<and> 0 < (1::nat)" using pend by simp
  with r(2) have m0: "c = breaking_w\<lparr>played := True\<rparr> \<and>
      p1 = mark_in_pass breaking_w wxy_pass \<and>
      pending_breaking (getOrderedClips (Some (snapshot p1))) = []"
    by blast
  then have mc: "c = breaking_w\<lparr>played := True\<rparr>"
    and mp: "p1 = mark_in_pass breaking_w wxy_pass"
    and mq: "pending_breaking (getOrderedClips (Some (snapshot p1))) = []"
    by blast+
  note m = mc mp mq[unfolded mp]
  have w1: "w1 = world_at 4 NoFile"
    using r(1)
    by (auto simp: select_clip_def loadPlaylist_def Let_def gone_env_def truthy_def scen_defs
        split: if_splits)
  from r(3) gone paths
  obtain st' p' w' where q: "play_pass ?e 1 (initial_state ''t'', wxy_pass, ?w) = Inr (st', p', w')"
    "played_paths (trace w') =
       played_paths (trace ?w) @
       fallback_order 1 (length (ordered wxy_pass) - 1) (map (clip_file ?e) ?pend)
         (map (clip_file ?e) (ordered wxy_pass))"
    "waited (trace w') = waited (trace ?w)"
    "clipsPlayed st' = clipsPlayed (initial_state ''t'') + int (length (ordered wxy_pass) - 1)"
    by blast
  from q(2) have 1: "played_paths (trace w') = [''queue/w.mp4'', ''queue/y.mp4'']"
    unfolding pend
    by (simp add: wxy_pass_def wxy_def clip_file_def gone_env_def scen_defs)
  from q(3) have 2: "waited (trace w') = []" by (simp add: world_at_def)
  from q(4) have 3: "clipsPlayed st' = 2"
    by (simp add: wxy_pass_def wxy_def initial_state_def)
  from q(1) 1 2 3 have "\<exists>st' p' w'. play_pass ?e 1 (initial_state ''t'', wxy_pass, ?w) = Inr (st', p', w') \<and>
      played_paths (trace w') = [''queue/w.mp4'', ''queue/y.mp4''] \<and>
      waited (trace w') = [] \<and> clipsPlayed st' = 2"
    by blast
  with fail i pend r(1) m w1 show ?thesis by (intro conjI) simp_all
qed

text \<open>
  Claim C9 as stated fails where it says that the pass continues on its committed base
  order: the pass whose base order is \<open>w, x, y\<close>, with the file gone, takes \<open>w\<close> at
  step 1, where the base order has \<open>x\<close>, and plays \<open>w, w, y\<close>.
\<close>

theorem reload_failure_leaves_base_order_counterexample:
  "truthy (producers gone_env (tick (world_at 3 (store_of wxy)))
      (playlist_json (world_at 3 (store_of wxy)))) = None \<and>
   ordered wxy_pass = getOrderedClips (Some (snapshot wxy_pass)) \<and>
   ordered wxy_pass ! 1 = mk_clip ''x'' ''normal'' None (Some 0) \<and>
   fst (select_clip gone_env 1 wxy_pass (world_at 3 (store_of wxy)))
     = Some (breaking_w\<lparr>played := True\<rparr>) \<and>
   played_paths (trace (snd (snd (projr
       (play_pass gone_env 0 (initial_state ''t'', wxy_pass, world_at 1 (store_of wxy)))))))
     = [''queue/w.mp4'', ''queue/w.mp4'', ''queue/y.mp4'']"
  by (simp add: gone_env_def wxy_pass_def wxy_def mark_in_pass_def step_defs scen_defs order_defs
      play_pass.simps)

subsection \<open>A clip whose file is missing\<close>

text \<open>
  Claim C6. Let the step's clip have a path, and let the joined path not exist when
  \<^verbatim>\<open>playClip\<close> looks. The step ends normally (no exception): \<^verbatim>\<open>errors\<close> and
  \<^verbatim>\<open>clipsPlayed\<close> are one more each, the trace gains the clip that was not found and the
  transition, and the loop goes on with step \<open>i + 1\<close>.
\<close>

theorem missing_clip_is_counted:
  assumes "select_clip e i p w = (Some clip, p1, w1)"
    and "path clip = Some rel"
    and "\<not> existsSync e (tick w1) (join e (queueDir e) rel)"
  shows "\<exists>st' w'.
           play_step e i (st, p, w) = Inr (st', p1, w') \<and>
           errors st' = errors st + 1 \<and> clipsPlayed st' = clipsPlayed st + 1 \<and>
           currentClipId st' = Some (clip_id clip) \<and> currentIndex st' = int i \<and>
           trace w' = trace w1 @ [NotFound (join e (queueDir e) rel), Transition] \<and>
           (i < length (ordered p) \<longrightarrow>
              play_pass e i (st, p, w) = play_pass e (i + 1) (st', p1, w'))"
proof -
  let ?st1 = "st\<lparr>currentClipId := Some (clip_id clip), currentIndex := int i\<rparr>"
  define st' where "st' = ?st1\<lparr>errors := errors st + 1, clipsPlayed := clipsPlayed st + 1\<rparr>"
  define w' where
    "w' = playTransition (snd (playClip e (saveState ?st1 w1) (join e (queueDir e) rel)))"
  have step: "play_step e i (st, p, w) = Inr (st', p1, w')"
    using assms
    by (simp add: play_step_def deliver_def playClip_def saveState_def Let_def st'_def w'_def)
  have tr: "trace w' = trace w1 @ [NotFound (join e (queueDir e) rel), Transition]"
    using assms(3)
    by (simp add: w'_def playClip_def saveState_def playTransition_def)
  have loop: "play_pass e i (st, p, w) = play_pass e (i + 1) (st', p1, w')"
    if "i < length (ordered p)"
    using that step by (subst play_pass.simps) simp
  show ?thesis
    using step tr loop by (auto simp: st'_def)
qed

text \<open>
  The theorem at step 0 of the plan \<open>x, y, z\<close> when no file exists: one error, one clip
  counted, and the pass goes on to \<open>y\<close> and \<open>z\<close>, three errors in all.
\<close>

theorem missing_clip_is_counted_witness:
  "select_clip (env_of (\<lambda>t f. f) (\<lambda>q. False)) 0 xyz_pass (world_at 1 (store_of xyz))
     = (Some (mk_clip ''x'' ''normal'' None (Some 0)), xyz_pass, world_at 2 (store_of xyz)) \<and>
   \<not> existsSync (env_of (\<lambda>t f. f) (\<lambda>q. False)) 2 ''queue/x.mp4'' \<and>
   (\<exists>st' w'. play_step (env_of (\<lambda>t f. f) (\<lambda>q. False)) 0
        (initial_state ''t'', xyz_pass, world_at 1 (store_of xyz)) = Inr (st', xyz_pass, w') \<and>
      errors st' = 1 \<and> clipsPlayed st' = 1 \<and>
      trace w' = [NotFound ''queue/x.mp4'', Transition]) \<and>
   (\<exists>st' w'. play_pass (env_of (\<lambda>t f. f) (\<lambda>q. False)) 0
        (initial_state ''t'', xyz_pass, world_at 1 (store_of xyz)) = Inr (st', xyz_pass, w') \<and>
      errors st' = 3 \<and> clipsPlayed st' = 3 \<and>
      played_paths (trace w') = [''queue/x.mp4'', ''queue/y.mp4'', ''queue/z.mp4''])"
proof -
  let ?e = "env_of (\<lambda>t f. f) (\<lambda>q. False)"
  let ?w = "world_at 1 (store_of xyz)"
  let ?x = "mk_clip ''x'' ''normal'' None (Some 0)"
  have sel: "select_clip ?e 0 xyz_pass ?w = (Some ?x, xyz_pass, world_at 2 (store_of xyz))"
    by (simp add: select_clip_def loadPlaylist_def truthy_def Let_def scen_defs order_defs)
  have rel: "path ?x = Some ''x.mp4''" by (simp add: mk_clip_def)
  have no: "\<not> existsSync ?e (tick (world_at 2 (store_of xyz))) (join ?e (queueDir ?e) ''x.mp4'')"
    by (simp add: scen_defs)
  from missing_clip_is_counted[OF sel rel no, of "initial_state ''t''"]
  obtain st' w' where r: "play_step ?e 0 (initial_state ''t'', xyz_pass, ?w) = Inr (st', xyz_pass, w')"
    "errors st' = errors (initial_state ''t'') + 1"
    "clipsPlayed st' = clipsPlayed (initial_state ''t'') + 1"
    "trace w' = trace (world_at 2 (store_of xyz)) @
       [NotFound (join ?e (queueDir ?e) ''x.mp4''), Transition]"
    by blast
  then have 1: "\<exists>st' w'. play_step ?e 0 (initial_state ''t'', xyz_pass, ?w) = Inr (st', xyz_pass, w') \<and>
      errors st' = 1 \<and> clipsPlayed st' = 1 \<and>
      trace w' = [NotFound ''queue/x.mp4'', Transition]"
    by (simp add: scen_defs initial_state_def)
  have 2: "\<exists>st' w'. play_pass ?e 0 (initial_state ''t'', xyz_pass, ?w) = Inr (st', xyz_pass, w') \<and>
      errors st' = 3 \<and> clipsPlayed st' = 3 \<and>
      played_paths (trace w') = [''queue/x.mp4'', ''queue/y.mp4'', ''queue/z.mp4'']"
    by (simp add: step_defs scen_defs order_defs play_pass.simps)
  have 3: "\<not> existsSync ?e 2 ''queue/x.mp4''" by (simp add: scen_defs)
  show ?thesis using sel 1 2 3 by blast
qed

section \<open>The end of a pass\<close>

text \<open>
  Claim C5. Let the load at the end of a pass find a playlist with clips \<open>cs\<close>. Then
  \<^verbatim>\<open>playlist.json\<close> is written once, with the clips of \<open>cs\<close> whose priority is not
  \<^verbatim>\<open>breaking\<close>, each as it was and in the order of \<open>cs\<close>, and with the other members
  of the playlist as they were: no breaking clip is left, whether or not one was played.
\<close>

theorem pass_complete_prunes_breaking:
  assumes "producers e (tick w) (playlist_json w) = Parsed pl" and "clips pl = Some cs"
  shows "\<exists>st' w' kept.
           pass_complete e (st, w) = Inr (st', w') \<and>
           playlist_json w' = Parsed \<lparr>clips = Some kept, members = members pl\<rparr> \<and>
           trace w' = trace w @ [PlaylistWritten \<lparr>clips = Some kept, members = members pl\<rparr>] \<and>
           kept = filter (\<lambda>c. priority c \<noteq> ''breaking'') cs \<and>
           mset kept = filter_mset (\<lambda>c. priority c \<noteq> ''breaking'') (mset cs) \<and>
           filter (\<lambda>c. priority c = ''breaking'') kept = [] \<and>
           loopCount st' = loopCount st + 1"
  using assms
  by (simp add: pass_complete_def prune_def loadPlaylist_eq truthy_def saveState_def
      writePlaylist_def Let_def)

text \<open>The theorem at the file \<open>x, w, y, z\<close>: the file becomes \<open>x, y, z\<close>.\<close>

theorem pass_complete_prunes_breaking_witness:
  "producers quiet_env (tick (world_at 8 (store_of (mk_clip ''x'' ''normal'' None (Some 0) # breaking_w # tl xyz))))
      (playlist_json (world_at 8 (store_of (mk_clip ''x'' ''normal'' None (Some 0) # breaking_w # tl xyz))))
     = Parsed \<lparr>clips = Some (mk_clip ''x'' ''normal'' None (Some 0) # breaking_w # tl xyz), members = []\<rparr> \<and>
   (\<exists>st' w'. pass_complete quiet_env
        (initial_state ''t'', world_at 8 (store_of (mk_clip ''x'' ''normal'' None (Some 0) # breaking_w # tl xyz)))
        = Inr (st', w') \<and>
      playlist_json w' = store_of xyz \<and> loopCount st' = 1)"
proof -
  let ?cs = "mk_clip ''x'' ''normal'' None (Some 0) # breaking_w # tl xyz"
  let ?w = "world_at 8 (store_of ?cs)"
  let ?pl = "\<lparr>clips = Some ?cs, members = []\<rparr>"
  have load: "producers quiet_env (tick ?w) (playlist_json ?w) = Parsed ?pl"
    by (simp add: scen_defs)
  have cs: "clips ?pl = Some ?cs" by simp
  from pass_complete_prunes_breaking[OF load cs, of "initial_state ''t''"]
  obtain st' w' kept where r: "pass_complete quiet_env (initial_state ''t'', ?w) = Inr (st', w')"
    "playlist_json w' = Parsed \<lparr>clips = Some kept, members = members ?pl\<rparr>"
    "kept = filter (\<lambda>c. priority c \<noteq> ''breaking'') ?cs"
    "loopCount st' = loopCount (initial_state ''t'') + 1"
    by blast
  from r(3) have "kept = xyz" by (simp add: scen_defs)
  with r(2) have "playlist_json w' = store_of xyz" by (simp add: store_of_def)
  moreover from r(4) have "loopCount st' = 1" by (simp add: initial_state_def)
  ultimately show ?thesis using load r(1) by blast
qed

text \<open>
  Claim C10. Let the load at the end of a pass find no file or a file that does not
  parse. Then \<^verbatim>\<open>playlist.json\<close> is not written (the trace is unchanged and the file
  is as the load found it), \<^verbatim>\<open>loopCount\<close> is one more and saved, and the body of the
  \<^verbatim>\<open>while\<close> loop ends normally, so that the loop goes on.
\<close>

theorem prune_skipped_when_unreadable:
  assumes "producers e (tick w) (playlist_json w) = f" and "f = NoFile \<or> f = Malformed"
  shows "pass_complete e (st, w) =
           Inr (st\<lparr>loopCount := loopCount st + 1\<rparr>,
                w\<lparr>state_json := StateJson (stringify (st\<lparr>loopCount := loopCount st + 1\<rparr>)),
                  playlist_json := f, tick := tick w + 1\<rparr>) \<and>
         (\<forall>st' w'. pass_complete e (st, w) = Inr (st', w') \<longrightarrow>
            playlist_json w' = f \<and> trace w' = trace w)"
  using assms
  by (auto simp add: pass_complete_def prune_def loadPlaylist_eq truthy_def saveState_def Let_def)

text \<open>The theorem at a file that was deleted before the end of the pass.\<close>

theorem prune_skipped_when_unreadable_witness:
  "producers (env_of (\<lambda>t f. NoFile) (\<lambda>q. True)) (tick (world_at 8 (store_of xyz)))
      (playlist_json (world_at 8 (store_of xyz))) = NoFile \<and>
   (\<exists>st' w'. pass_complete (env_of (\<lambda>t f. NoFile) (\<lambda>q. True))
        (initial_state ''t'', world_at 8 (store_of xyz)) = Inr (st', w') \<and>
      playlist_json w' = NoFile \<and> trace w' = [] \<and> loopCount st' = 1)"
proof -
  let ?e = "env_of (\<lambda>t f. NoFile) (\<lambda>q. True)"
  let ?w = "world_at 8 (store_of xyz)"
  have load: "producers ?e (tick ?w) (playlist_json ?w) = NoFile"
    by (simp add: scen_defs)
  have "NoFile = NoFile \<or> NoFile = Malformed" by simp
  from prune_skipped_when_unreadable[OF load this, of "initial_state ''t''"]
  obtain st' w' where r: "pass_complete ?e (initial_state ''t'', ?w) = Inr (st', w')"
    "st' = (initial_state ''t'')\<lparr>loopCount := loopCount (initial_state ''t'') + 1\<rparr>"
    "playlist_json w' = NoFile" "trace w' = trace ?w"
    by blast
  from r(2) have "loopCount st' = 1" by (simp add: initial_state_def)
  moreover from r(4) have "trace w' = []" by (simp add: world_at_def)
  ultimately show ?thesis using load r(1,3) by blast
qed

section \<open>The \<^verbatim>\<open>while\<close> loop\<close>

lemma getOrderedClips_empty_iff:
  assumes "clips pl = Some cs"
  shows "getOrderedClips (Some pl) = [] \<longleftrightarrow> filter recognized cs = []"
proof -
  have "getOrderedClips (Some pl) = [] \<longleftrightarrow> set (getOrderedClips (Some pl)) = {}"
    by simp
  also have "set (getOrderedClips (Some pl)) = {c \<in> set cs. recognized c}"
    by (auto simp: getOrderedClips_buckets[OF assms] pinned_bucket_def breaking_bucket_def
        normal_bucket_def filler_bucket_def set_js_sort recognized_def)
  also have "{c \<in> set cs. recognized c} = {} \<longleftrightarrow> filter recognized cs = []"
    by (auto simp: filter_empty_conv)
  finally show ?thesis .
qed

lemma idle_iff:
  "idle f \<longleftrightarrow>
     (case truthy f of
        None \<Rightarrow> True
      | Some pl \<Rightarrow> (case clips pl of None \<Rightarrow> True | Some cs \<Rightarrow> filter recognized cs = []))"
proof (cases "truthy f")
  case None
  then show ?thesis by (simp add: idle_def getOrderedClips_def)
next
  case (Some pl)
  show ?thesis
  proof (cases "clips pl")
    case None
    then show ?thesis using Some by (simp add: idle_def getOrderedClips_def)
  next
    case (Some cs)
    then show ?thesis
      using \<open>truthy f = Some pl\<close> by (simp add: idle_def getOrderedClips_empty_iff)
  qed
qed

lemma iteration_idle:
  assumes "idle (found e w)"
  shows "iteration e (st, w) = Inr (st, wait 10000 (snd (loadPlaylist e w)))"
  using assms
  by (auto simp: iteration_def idle_def found_def loadPlaylist_eq Let_def split: option.splits)

lemma iteration_pass:
  assumes "found e w = Parsed pl" and "getOrderedClips (Some pl) \<noteq> []"
  shows "iteration e (st, w) =
     (case play_pass e 0 (st, \<lparr>snapshot = pl, ordered = getOrderedClips (Some pl)\<rparr>,
                          snd (loadPlaylist e w)) of
        Inl x \<Rightarrow> Inl x
      | Inr (st2, p2, w2) \<Rightarrow> pass_complete e (st2, w2))"
  using assms
  by (simp add: iteration_def found_def loadPlaylist_eq truthy_def Let_def)

lemma main_loop_polls:
  assumes run: "running st"
  shows "(\<forall>j<k. idle (found e (polls e j w))) \<Longrightarrow>
         main_loop (k + n) e (st, w) = main_loop n e (st, polls e k w) \<and>
         trace (polls e k w) = trace w @ replicate k (Waited 10000) \<and>
         tick (polls e k w) = tick w + k"
proof (induction k arbitrary: w)
  case 0
  show ?case by simp
next
  case (Suc k)
  let ?v = "wait 10000 (snd (loadPlaylist e w))"
  from Suc.prems have "idle (found e (polls e 0 w))" by blast
  then have it: "iteration e (st, w) = Inr (st, ?v)"
    by (simp add: iteration_idle)
  have "\<forall>j<k. idle (found e (polls e j ?v))"
  proof (intro allI impI)
    fix j assume "j < k"
    then have "Suc j < Suc k" by simp
    with Suc.prems have "idle (found e (polls e (Suc j) w))" by blast
    then show "idle (found e (polls e j ?v))" by simp
  qed
  from Suc.IH[OF this]
  have ih: "main_loop (k + n) e (st, ?v) = main_loop n e (st, polls e k ?v)"
    "trace (polls e k ?v) = trace ?v @ replicate k (Waited 10000)"
    "tick (polls e k ?v) = tick ?v + k"
    by simp_all
  have "main_loop (Suc k + n) e (st, w) = main_loop (k + n) e (st, ?v)"
    using run it by simp
  moreover have "trace ?v = trace w @ [Waited 10000]" "tick ?v = tick w + 1"
    by (simp_all add: wait_def loadPlaylist_eq)
  ultimately show ?case
    using ih by (simp add: replicate_append_same)
qed

text \<open>
  Claim C8, as amended. While \<^verbatim>\<open>engineState.running\<close> holds, as long as every load
  finds a file whose order is empty, the loop neither fails nor ends: after \<open>k\<close> such
  loads it has waited \<open>k\<close> times 10 seconds, done nothing else, and is at its next
  iteration. As soon as a load finds a playlist whose order is not empty, that iteration
  is the pass over this order, followed by the end of the pass. The order of a file is
  empty exactly when there is no file, it does not parse, it holds a falsy value, it has
  no \<^verbatim>\<open>clips\<close>, or none of its clips has a recognized priority (zero clips included).
\<close>

theorem unavailable_store_polls:
  assumes run: "running st" and idl: "\<forall>j<k. idle (found e (polls e j w))"
  shows "main_loop (k + n) e (st, w) = main_loop n e (st, polls e k w) \<and>
         trace (polls e k w) = trace w @ replicate k (Waited 10000) \<and>
         (\<forall>pl. found e (polls e k w) = Parsed pl \<and> getOrderedClips (Some pl) \<noteq> [] \<longrightarrow>
            main_loop (k + 1) e (st, w) =
              (case play_pass e 0 (st, \<lparr>snapshot = pl, ordered = getOrderedClips (Some pl)\<rparr>,
                                   snd (loadPlaylist e (polls e k w))) of
                 Inl x \<Rightarrow> Inl x
               | Inr (st2, p2, w2) \<Rightarrow> pass_complete e (st2, w2))) \<and>
         (\<forall>f. idle f \<longleftrightarrow>
            f = NoFile \<or> f = Malformed \<or> f = Falsy \<or>
            (\<exists>pl. f = Parsed pl \<and> clips pl = None) \<or>
            (\<exists>pl cs. f = Parsed pl \<and> clips pl = Some cs \<and> filter recognized cs = []))"
proof (intro conjI allI impI)
  show "main_loop (k + n) e (st, w) = main_loop n e (st, polls e k w)"
    using main_loop_polls[OF run idl] by simp
  show "trace (polls e k w) = trace w @ replicate k (Waited 10000)"
    using main_loop_polls[OF run idl, of 0] by simp
next
  fix pl
  assume a: "found e (polls e k w) = Parsed pl \<and> getOrderedClips (Some pl) \<noteq> []"
  have "main_loop (k + 1) e (st, w) = main_loop 1 e (st, polls e k w)"
    using main_loop_polls[OF run idl, of 1] by simp
  also have "\<dots> = iteration e (st, polls e k w)"
    using run by (simp split: sum.splits)
  finally show "main_loop (k + 1) e (st, w) =
              (case play_pass e 0 (st, \<lparr>snapshot = pl, ordered = getOrderedClips (Some pl)\<rparr>,
                                   snd (loadPlaylist e (polls e k w))) of
                 Inl x \<Rightarrow> Inl x
               | Inr (st2, p2, w2) \<Rightarrow> pass_complete e (st2, w2))"
    using a by (simp add: iteration_pass)
next
  fix f
  show "idle f \<longleftrightarrow>
            f = NoFile \<or> f = Malformed \<or> f = Falsy \<or>
            (\<exists>pl. f = Parsed pl \<and> clips pl = None) \<or>
            (\<exists>pl cs. f = Parsed pl \<and> clips pl = Some cs \<and> filter recognized cs = [])"
    unfolding idle_iff
    by (cases f) (auto simp: truthy_def split: option.splits)
qed

text \<open>
  The theorem at a run where the file is deleted before the first load, is there with
  zero clips at the second, and holds \<open>x, y, z\<close> from the third on: two waits, then the
  pass over \<open>x, y, z\<close> and the write at its end.
\<close>

theorem unavailable_store_polls_witness:
  "running (initial_state ''t'') \<and>
   idle (found reappearing_env (polls reappearing_env 0 (world_at 0 (store_of xyz)))) \<and>
   idle (found reappearing_env (polls reappearing_env 1 (world_at 0 (store_of xyz)))) \<and>
   trace (polls reappearing_env 2 (world_at 0 (store_of xyz))) = [Waited 10000, Waited 10000] \<and>
   (\<exists>st' w'. main_loop 3 reappearing_env (initial_state ''t'', world_at 0 (store_of xyz))
        = Inr (st', w') \<and>
      trace w' = [Waited 10000, Waited 10000,
                  Streamed ''queue/x.mp4'' (Some 0), Transition,
                  Streamed ''queue/y.mp4'' (Some 0), Transition,
                  Streamed ''queue/z.mp4'' (Some 0), Transition,
                  PlaylistWritten \<lparr>clips = Some xyz, members = []\<rparr>] \<and>
      loopCount st' = 1 \<and> clipsPlayed st' = 3 \<and> errors st' = 0)"
proof -
  let ?e = reappearing_env
  let ?w = "world_at 0 (store_of xyz)"
  let ?st = "initial_state ''t''"
  have run: "running ?st" by (simp add: initial_state_def)
  have p1: "polls ?e 1 ?w = \<lparr>playlist_json = NoFile, state_json = NoStateFile, tick = 1,
      trace = [Waited 10000]\<rparr>"
    by (simp add: reappearing_env_def loadPlaylist_def wait_def Let_def scen_defs)
  have p2: "polls ?e 2 ?w = \<lparr>playlist_json = store_of [], state_json = NoStateFile, tick = 2,
      trace = [Waited 10000, Waited 10000]\<rparr>"
    by (simp add: numeral_2_eq_2 reappearing_env_def loadPlaylist_def wait_def Let_def scen_defs)
  have i0: "idle (found ?e (polls ?e 0 ?w))"
    by (simp add: idle_def found_def truthy_def getOrderedClips_def reappearing_env_def scen_defs)
  have i1: "idle (found ?e (polls ?e 1 ?w))"
    unfolding p1
    by (simp add: idle_def found_def truthy_def getOrderedClips_def reappearing_env_def scen_defs)
  have idl: "\<forall>j<2. idle (found ?e (polls ?e j ?w))"
    using i0 i1 by (auto simp: less_2_cases_iff)
  have f: "found ?e (polls ?e 2 ?w) = Parsed \<lparr>clips = Some xyz, members = []\<rparr>"
    unfolding p2 by (simp add: found_def reappearing_env_def scen_defs)
  have ne: "getOrderedClips (Some \<lparr>clips = Some xyz, members = []\<rparr>) \<noteq> []"
    by (simp add: scen_defs order_defs)
  note base = unavailable_store_polls[OF run idl, of 0]
  from base have tr: "trace (polls ?e 2 ?w) = trace ?w @ replicate 2 (Waited 10000)"
    by (elim conjE)
  from base f ne have "main_loop (2 + 1) ?e (?st, ?w) =
      (case play_pass ?e 0 (?st, \<lparr>snapshot = \<lparr>clips = Some xyz, members = []\<rparr>,
             ordered = getOrderedClips (Some \<lparr>clips = Some xyz, members = []\<rparr>)\<rparr>,
             snd (loadPlaylist ?e (polls ?e 2 ?w))) of
         Inl x \<Rightarrow> Inl x
       | Inr (st2, p2, w2) \<Rightarrow> pass_complete ?e (st2, w2))"
    by blast
  then have "\<exists>st' w'. main_loop 3 ?e (?st, ?w) = Inr (st', w') \<and>
      trace w' = [Waited 10000, Waited 10000,
                  Streamed ''queue/x.mp4'' (Some 0), Transition,
                  Streamed ''queue/y.mp4'' (Some 0), Transition,
                  Streamed ''queue/z.mp4'' (Some 0), Transition,
                  PlaylistWritten \<lparr>clips = Some xyz, members = []\<rparr>] \<and>
      loopCount st' = 1 \<and> clipsPlayed st' = 3 \<and> errors st' = 0"
    unfolding p2
    by (simp add: reappearing_env_def step_defs scen_defs order_defs play_pass.simps)
  moreover from tr have "trace (polls ?e 2 ?w) = [Waited 10000, Waited 10000]"
    by (simp add: world_at_def numeral_2_eq_2)
  ultimately show ?thesis using run i0 i1 by blast
qed

text \<open>
  Claim C8 as the specification states it fails: a load that yields a playlist with one
  clip, of priority \<^verbatim>\<open>urgent\<close>, does not start a pass. The order is empty and the
  iteration waits.
\<close>

theorem one_clip_still_waits_counterexample:
  "found quiet_env (world_at 0 (store_of [urgent_clip]))
     = Parsed \<lparr>clips = Some [urgent_clip], members = []\<rparr> \<and>
   length [urgent_clip] = 1 \<and>
   iteration quiet_env (initial_state ''t'', world_at 0 (store_of [urgent_clip]))
     = Inr (initial_state ''t'',
            \<lparr>playlist_json = store_of [urgent_clip], state_json = NoStateFile, tick = 1,
             trace = [Waited 10000]\<rparr>)"
  by (simp add: found_def urgent_clip_def step_defs scen_defs order_defs)

end
